theory Spec2Isabelle
  imports Complex_Main "HOL-Library.Signed_Division"
begin

section \<open>The AVL tree of avltree.hpp\<close>

text \<open>
  Exceptions of exceptions.hpp. A function that may throw returns
  \<open>exception + 'a\<close> (\<open>Inl\<close> the exception thrown) together with the state it
  leaves behind. Dereferencing a null pointer or reading an array out of range has no
  defined result in C++: such a run is the value \<open>None\<close> of an outer option.
\<close>

datatype exception =
    AVLTreeKeyNotFoundException
  | AVLTreeKeyAlreadyExistsException
  | AVLTreeInvalidArgException
  | AVLTreeNullArgException
  | AVLTreeIteratorReachedEnd
  | AVLTreeIteratorReachedRoot
  | HashMapKeyNotFoundException
  | HashMapKeyAlreadyExistsException

text \<open>
  A \<open>Node*\<close> is a value of type \<open>node\<close>: \<open>Null\<close> is the null pointer, and
  \<open>Node key data left right left_height right_height\<close> is a pointer to a node with
  these fields (\<open>_left_height\<close> and \<open>_right_height\<close> are the cached heights, kept
  as they are stored, never recomputed by the model). The field \<open>_parent\<close> is the
  position of the node in the enclosing term. The code uses it for two things: to
  relink a subtree into its parent (\<open>_parent->setLeft(x)\<close>, \<open>_parent->setRight(x)\<close>,
  which also refresh the parent's cached height of that side), and to walk
  upwards in the iterator. The first is modelled by a flag returned by every function
  that may replace the root of the subtree it works on: the flag is \<open>True\<close> exactly
  when the code has called \<open>setLeft\<close>/\<open>setRight\<close> on the parent (or has assigned
  the tree's \<open>root\<close>), and the caller then applies that call. When the flag is
  \<open>False\<close> the parent's pointer is unchanged and only the node it points to was
  modified in place, so the parent's cached height stays as it was.
\<close>

datatype ('k, 'v) node =
    Null
  | Node (getKey: 'k) (getData: 'v) (getLeft: "('k, 'v) node") (getRight: "('k, 'v) node")
         (left_height: int) (right_height: int)

fun isLeaf :: "('k, 'v) node \<Rightarrow> bool" where
  "isLeaf (Node k d l r lh rh) = (case (l, r) of (Null, Null) \<Rightarrow> True | _ \<Rightarrow> False)"

fun isFull :: "('k, 'v) node \<Rightarrow> bool" where
  "isFull (Node k d l r lh rh) =
     (case l of Null \<Rightarrow> False | Node _ _ _ _ _ _ \<Rightarrow>
        (case r of Null \<Rightarrow> False | Node _ _ _ _ _ _ \<Rightarrow> True))"

fun getBalance :: "('k, 'v) node \<Rightarrow> int" where
  "getBalance (Node k d l r lh rh) = lh - rh"

fun getHeight :: "('k, 'v) node \<Rightarrow> int" where
  "getHeight (Node k d l r lh rh) = max lh rh + 1"

fun updateLeftHeight :: "('k, 'v) node \<Rightarrow> ('k, 'v) node" where
  "updateLeftHeight (Node k d l r lh rh) =
     Node k d l r (case l of Null \<Rightarrow> 0 | Node _ _ _ _ _ _ \<Rightarrow> getHeight l) rh"

fun updateRightHeight :: "('k, 'v) node \<Rightarrow> ('k, 'v) node" where
  "updateRightHeight (Node k d l r lh rh) =
     Node k d l r lh (case r of Null \<Rightarrow> 0 | Node _ _ _ _ _ _ \<Rightarrow> getHeight r)"

text \<open>\<open>setLeft son this\<close> is \<open>this->setLeft(son)\<close>.\<close>

fun setLeft :: "('k, 'v) node \<Rightarrow> ('k, 'v) node \<Rightarrow> ('k, 'v) node" where
  "setLeft son (Node k d l r lh rh) = updateLeftHeight (Node k d son r lh rh)"

fun setRight :: "('k, 'v) node \<Rightarrow> ('k, 'v) node \<Rightarrow> ('k, 'v) node" where
  "setRight son (Node k d l r lh rh) = updateRightHeight (Node k d l son lh rh)"

text \<open>
  What the parent sees after a call on its left (right) child returned: with the flag
  set, the callee has called \<open>setLeft\<close> (\<open>setRight\<close>) on it; otherwise the child was
  modified in place.
\<close>

fun relinkLeft :: "bool \<times> ('k, 'v) node \<Rightarrow> ('k, 'v) node \<Rightarrow> ('k, 'v) node" where
  "relinkLeft (rel, son) (Node k d l r lh rh) =
     (if rel then setLeft son (Node k d l r lh rh) else Node k d son r lh rh)"

fun relinkRight :: "bool \<times> ('k, 'v) node \<Rightarrow> ('k, 'v) node \<Rightarrow> ('k, 'v) node" where
  "relinkRight (rel, son) (Node k d l r lh rh) =
     (if rel then setRight son (Node k d l r lh rh) else Node k d l son lh rh)"

subsection \<open>Rotations\<close>

text \<open>
  Each rotation returns the new root of the rotated subtree, as the code does; the
  relinking of that root into the parent of the old one is the caller's
  \<open>relinkLeft\<close>/\<open>relinkRight\<close>. \<open>None\<close>: the code dereferences a null pointer.
\<close>

fun rotateLL :: "('k, 'v) node \<Rightarrow> ('k, 'v) node option" where
  "rotateLL (Node bk bd (Node ak ad al ar alh arh) br blh brh) =
     (let B = setLeft ar (Node bk bd (Node ak ad al ar alh arh) br blh brh);
          A = setRight B (Node ak ad al ar alh arh)
      in Some A)"
| "rotateLL _ = None"

fun rotateRR :: "('k, 'v) node \<Rightarrow> ('k, 'v) node option" where
  "rotateRR (Node ak ad al (Node bk bd bl br blh brh) alh arh) =
     (let A = setRight bl (Node ak ad al (Node bk bd bl br blh brh) alh arh);
          B = setLeft A (Node bk bd bl br blh brh)
      in Some B)"
| "rotateRR _ = None"

text \<open>
  In \<open>rotateLR(C)\<close> the inner \<open>rotateRR(C->getLeft())\<close> finds \<open>C\<close> as the parent and
  calls \<open>C->setLeft\<close> with its result; \<open>rotateRL\<close> is the mirror image.
\<close>

fun rotateLR :: "('k, 'v) node \<Rightarrow> ('k, 'v) node option" where
  "rotateLR (Node k d l r lh rh) =
     (case rotateRR l of None \<Rightarrow> None
      | Some b \<Rightarrow> rotateLL (setLeft b (Node k d l r lh rh)))"
| "rotateLR Null = None"

fun rotateRL :: "('k, 'v) node \<Rightarrow> ('k, 'v) node option" where
  "rotateRL (Node k d l r lh rh) =
     (case rotateLL r of None \<Rightarrow> None
      | Some a \<Rightarrow> rotateRR (setRight a (Node k d l r lh rh)))"
| "rotateRL Null = None"

text \<open>
  \<open>rotate\<close> (named \<open>rotateT\<close> here) returns the subtree that now stands where
  \<open>node\<close> stood, with the flag that says whether a rotation has put a new root there.
\<close>

fun rotateT :: "('k, 'v) node \<Rightarrow> (bool \<times> ('k, 'v) node) option" where
  "rotateT Null = None"
| "rotateT (Node k d l r lh rh) =
     (let node = Node k d l r lh rh in
      if getBalance node = 2 then
        (case l of Null \<Rightarrow> None
         | Node _ _ _ _ _ _ \<Rightarrow>
             if getBalance l \<ge> 0 then map_option (Pair True) (rotateLL node)
             else if getBalance l = - 1 then map_option (Pair True) (rotateLR node)
             else Some (False, node))
      else if getBalance node = - 2 then
        (case r of Null \<Rightarrow> None
         | Node _ _ _ _ _ _ \<Rightarrow>
             if getBalance r = 1 then map_option (Pair True) (rotateRL node)
             else if getBalance r \<le> 0 then map_option (Pair True) (rotateRR node)
             else Some (False, node))
      else Some (False, node))"

subsection \<open>Find and Insert\<close>

text \<open>
  A pointer to a node inside a tree is the path that leads to it from the root of that
  tree; \<open>None\<close> is the null pointer.
\<close>

datatype dir = L | R

fun recursiveFind :: "('k::linorder, 'v) node \<Rightarrow> 'k \<Rightarrow> dir list option" where
  "recursiveFind Null key = None"
| "recursiveFind (Node k d l r lh rh) key =
     (if k > key then map_option (Cons L) (recursiveFind l key)
      else if k < key then map_option (Cons R) (recursiveFind r key)
      else Some [])"

fun recursiveInsert ::
  "('k::linorder, 'v) node \<Rightarrow> ('k, 'v) node \<Rightarrow> (bool \<times> ('k, 'v) node) option" where
  "recursiveInsert Null to_insert = None"
| "recursiveInsert (Node k d l r lh rh) to_insert =
     (let current = Node k d l r lh rh in
      if isLeaf current then
        (if k < getKey to_insert then rotateT (setRight to_insert current)
         else rotateT (setLeft to_insert current))
      else if isFull current then
        (if k < getKey to_insert then
           (case recursiveInsert r to_insert of None \<Rightarrow> None
            | Some res \<Rightarrow> rotateT (updateRightHeight (relinkRight res current)))
         else
           (case recursiveInsert l to_insert of None \<Rightarrow> None
            | Some res \<Rightarrow> rotateT (updateRightHeight (relinkLeft res current))))
      else if l \<noteq> Null then
        (if getKey to_insert > k then rotateT (setRight to_insert current)
         else
           (case recursiveInsert l to_insert of None \<Rightarrow> None
            | Some res \<Rightarrow> rotateT (updateLeftHeight (relinkLeft res current))))
      else
        (if getKey to_insert < k then rotateT (setLeft to_insert current)
         else
           (case recursiveInsert r to_insert of None \<Rightarrow> None
            | Some res \<Rightarrow> rotateT (updateRightHeight (relinkRight res current)))))"

fun updateMinimal :: "('k, 'v) node \<Rightarrow> dir list option" where
  "updateMinimal Null = None"
| "updateMinimal (Node k d Null r lh rh) = Some []"
| "updateMinimal (Node k d (Node lk ld ll lr llh lrh) r lh rh) =
     map_option (Cons L) (updateMinimal (Node lk ld ll lr llh lrh))"

text \<open>
  The tree object: the fields \<open>root\<close>, \<open>minimal\<close> and \<open>size\<close> (named
  \<open>rootT\<close> and \<open>sizeT\<close> here).
\<close>

record ('k, 'v) AVLTree =
  rootT :: "('k, 'v) node"
  minimal :: "dir list option"
  sizeT :: int

definition AVLTree_init :: "('k, 'v) AVLTree" where
  "AVLTree_init = \<lparr>rootT = Null, minimal = None, sizeT = 0\<rparr>"

definition getSize :: "('k, 'v) AVLTree \<Rightarrow> int" where
  "getSize t = sizeT t"

definition Empty :: "('k, 'v) AVLTree \<Rightarrow> bool" where
  "Empty t = (rootT t = Null \<or> getSize t = 0)"

definition Find ::
  "'k::linorder \<Rightarrow> ('k, 'v) AVLTree \<Rightarrow> exception + dir list" where
  "Find key t =
     (case recursiveFind (rootT t) key of
        None \<Rightarrow> Inl AVLTreeKeyNotFoundException
      | Some p \<Rightarrow> Inr p)"

definition Insert ::
  "'k::linorder \<Rightarrow> 'v \<Rightarrow> ('k, 'v) AVLTree \<Rightarrow> ((exception + unit) \<times> ('k, 'v) AVLTree) option" where
  "Insert key data t =
     (if Empty t then
        (let r = Node key data Null Null 0 0 in
         Some (Inr (), \<lparr>rootT = r, minimal = updateMinimal r, sizeT = sizeT t + 1\<rparr>))
      else
        (case Find key t of
           Inr p \<Rightarrow> Some (Inl AVLTreeKeyAlreadyExistsException, t)
         | Inl e \<Rightarrow>
             (case recursiveInsert (rootT t) (Node key data Null Null 0 0) of
                None \<Rightarrow> None
              | Some (rel, r) \<Rightarrow>
                  Some (Inr (), \<lparr>rootT = r, minimal = updateMinimal r, sizeT = sizeT t + 1\<rparr>))))"

subsection \<open>Delete\<close>

text \<open>
  The successor search of \<open>recursiveDelete\<close> (its \<open>while\<close> loop) and
  \<open>Node::swap\<close>: \<open>findLeftmost n\<close> is the node the loop stops at, and
  \<open>storeLeftmost key data n\<close> writes a key and a payload into that node, in place.
\<close>

fun findLeftmost :: "('k, 'v) node \<Rightarrow> ('k, 'v) node" where
  "findLeftmost (Node k d Null r lh rh) = Node k d Null r lh rh"
| "findLeftmost (Node k d (Node lk ld ll lr llh lrh) r lh rh) =
     findLeftmost (Node lk ld ll lr llh lrh)"

fun storeLeftmost :: "'k \<Rightarrow> 'v \<Rightarrow> ('k, 'v) node \<Rightarrow> ('k, 'v) node" where
  "storeLeftmost key data Null = Null"
| "storeLeftmost key data (Node k d Null r lh rh) = Node key data Null r lh rh"
| "storeLeftmost key data (Node k d (Node lk ld ll lr llh lrh) r lh rh) =
     Node k d (storeLeftmost key data (Node lk ld ll lr llh lrh)) r lh rh"

text \<open>
  \<open>swap\<close> exchanges key and payload of \<open>current\<close> with those of the leftmost node of
  its right subtree; no node moves.
\<close>

fun swap :: "('k, 'v) node \<Rightarrow> ('k, 'v) node" where
  "swap (Node k d l r lh rh) =
     (let current_right = findLeftmost r
      in Node (getKey current_right) (getData current_right) l (storeLeftmost k d r) lh rh)"

text \<open>
  The key of \<open>Delete\<close> and \<open>recursiveDelete\<close> is a reference
  (\<open>const KeyType&\<close>): the code reads it again at every node it visits, also after
  \<open>swap\<close> has exchanged payloads, and the caller may pass a reference to storage inside
  the tree, as in \<open>Delete(*it)\<close> for an iterator \<open>it\<close> of a tree whose payload type is
  its key type. The argument is therefore a function that reads the referenced value
  from the subtree at hand, as that subtree is in memory at the moment of the read:
  \<open>byValue k\<close> is a reference to storage outside the tree, which always reads \<open>k\<close>,
  and \<open>payloadOf p\<close> (defined with the iterator below) is a reference to the payload
  of the node at path \<open>p\<close>. For the call on a child the reference is read through
  the parent: \<open>putLeft n current\<close> and \<open>putRight n current\<close> are the node
  \<open>current\<close> with the child subtree as it is then (nothing outside that subtree
  changes while the call on it runs, and the key is not read after the call returns).
\<close>

type_synonym ('k, 'v) keyRef = "('k, 'v) node \<Rightarrow> 'k"

definition byValue :: "'k \<Rightarrow> ('k, 'v) keyRef" where
  "byValue k = (\<lambda>n. k)"

fun putLeft :: "('k, 'v) node \<Rightarrow> ('k, 'v) node \<Rightarrow> ('k, 'v) node" where
  "putLeft n (Node k d l r lh rh) = Node k d n r lh rh"

fun putRight :: "('k, 'v) node \<Rightarrow> ('k, 'v) node \<Rightarrow> ('k, 'v) node" where
  "putRight n (Node k d l r lh rh) = Node k d l n lh rh"

text \<open>
  A deleted node reports the flag \<open>True\<close> with the pointer that replaces it:
  \<open>disconnectFromParent\<close> calls \<open>setLeft(NULL)\<close>/\<open>setRight(NULL)\<close> on the parent,
  \<open>attachParentAndSon\<close> calls them with the only son. In the case of two children
  the call on the right subtree reads the key through the swapped node \<open>swap current\<close>.
\<close>

function recursiveDelete ::
  "('k::linorder, 'v) node \<Rightarrow> ('k, 'v) keyRef \<Rightarrow> (bool \<times> ('k, 'v) node) option" where
  "recursiveDelete Null key = None"
| "recursiveDelete (Node k d l r lh rh) key =
     (let current = Node k d l r lh rh in
      if k = key current then
        (if isLeaf current then Some (True, Null)
         else if isFull current then
           (case recursiveDelete (storeLeftmost k d r) (\<lambda>n. key (putRight n (swap current))) of
              None \<Rightarrow> None
            | Some res \<Rightarrow>
                (let current = relinkRight res (swap current);
                     current = (if getRight current \<noteq> Null then updateRightHeight current
                                else current)
                 in rotateT current))
         else Some (True, if r \<noteq> Null then r else l))
      else if key current > k then
        (case recursiveDelete r (\<lambda>n. key (putRight n current)) of None \<Rightarrow> None
         | Some res \<Rightarrow>
             (let current = relinkRight res current;
                  current = (if getRight current \<noteq> Null then updateRightHeight current
                             else current)
              in rotateT current))
      else
        (case recursiveDelete l (\<lambda>n. key (putLeft n current)) of None \<Rightarrow> None
         | Some res \<Rightarrow>
             (let current = relinkLeft res current;
                  current = (if getLeft current \<noteq> Null then updateLeftHeight current
                             else current)
              in rotateT current)))"
  by pat_completeness auto
termination
proof -
  have sz: "size (storeLeftmost key data n) = size n"
    for key :: 'k and data :: 'v and n :: "('k, 'v) node"
    by (induction key data n rule: storeLeftmost.induct) simp_all
  show ?thesis
    by (relation "measure (\<lambda>(n, key). size n)")
      (auto simp add: sz dest: arg_cong[where f = size])
qed

text \<open>
  \<open>Delete\<close> reads the key for \<open>Find\<close> (which changes nothing) and hands the
  reference on to \<open>recursiveDelete\<close>.
\<close>

definition Delete ::
  "('k::linorder, 'v) keyRef \<Rightarrow> ('k, 'v) AVLTree
     \<Rightarrow> ((exception + unit) \<times> ('k, 'v) AVLTree) option" where
  "Delete key t =
     (case Find (key (rootT t)) t of
        Inl e \<Rightarrow> Some (Inl e, t)
      | Inr p \<Rightarrow>
          (case recursiveDelete (rootT t) key of
             None \<Rightarrow> None
           | Some (rel, r) \<Rightarrow>
               (let size' = sizeT t - 1;
                    r' = (if size' = 0 then Null else r)
                in Some (Inr (), \<lparr>rootT = r', minimal = updateMinimal r', sizeT = size'\<rparr>))))"

subsection \<open>The iterator\<close>

text \<open>
  An iterator holds \<open>current\<close>, a pointer to a node of its tree (a path from the root,
  \<open>None\<close> for the null pointer). \<open>nodeAt n p\<close> follows a path; it is \<open>Null\<close> where
  the path leaves the tree. \<open>getParent\<close> of the node at path \<open>p\<close> is the node at
  \<open>butlast p\<close>, and null for the root (the empty path).
\<close>

fun nodeAt :: "('k, 'v) node \<Rightarrow> dir list \<Rightarrow> ('k, 'v) node" where
  "nodeAt n [] = n"
| "nodeAt Null (x # p) = Null"
| "nodeAt (Node k d l r lh rh) (L # p) = nodeAt l p"
| "nodeAt (Node k d l r lh rh) (R # p) = nodeAt r p"

text \<open>
  The reference \<open>*it\<close> to the payload of the node at path \<open>p\<close>, as a key argument
  of \<open>Delete\<close> on a tree whose payloads are keys.
\<close>

definition payloadOf :: "dir list \<Rightarrow> ('k, 'k) keyRef" where
  "payloadOf p = (\<lambda>n. getData (nodeAt n p))"

type_synonym iterator = "dir list option"

definition MoveLeft :: "('k, 'v) AVLTree \<Rightarrow> iterator \<Rightarrow> exception + iterator" where
  "MoveLeft t current =
     (case current of
        None \<Rightarrow> Inl AVLTreeIteratorReachedEnd
      | Some p \<Rightarrow>
          (case getLeft (nodeAt (rootT t) p) of
             Null \<Rightarrow> Inr None
           | Node _ _ _ _ _ _ \<Rightarrow> Inr (Some (p @ [L]))))"

definition MoveRight :: "('k, 'v) AVLTree \<Rightarrow> iterator \<Rightarrow> exception + iterator" where
  "MoveRight t current =
     (case current of
        None \<Rightarrow> Inl AVLTreeIteratorReachedEnd
      | Some p \<Rightarrow>
          (case getRight (nodeAt (rootT t) p) of
             Null \<Rightarrow> Inr None
           | Node _ _ _ _ _ _ \<Rightarrow> Inr (Some (p @ [R]))))"

definition moveToParent :: "('k, 'v) AVLTree \<Rightarrow> iterator \<Rightarrow> exception + iterator" where
  "moveToParent t current =
     (case current of
        None \<Rightarrow> Inl AVLTreeIteratorReachedEnd
      | Some p \<Rightarrow>
          (if p = [] then Inl AVLTreeIteratorReachedRoot
           else Inr (Some (butlast p))))"

definition deref :: "('k, 'v) AVLTree \<Rightarrow> iterator \<Rightarrow> exception + 'v" where
  "deref t current =
     (case current of
        None \<Rightarrow> Inl AVLTreeIteratorReachedEnd
      | Some p \<Rightarrow> Inr (getData (nodeAt (rootT t) p)))"

subsection \<open>Bulk rebuild\<close>

text \<open>
  \<open>getTreeHeightByNodesCount\<close>: the loop compares \<open>pow(2, height) - 1\<close> with
  \<open>count\<close> in double precision, which is exact for every \<open>int\<close> count.
\<close>

function heightLoop :: "int \<Rightarrow> nat \<Rightarrow> nat" where
  "heightLoop count height =
     (if 2 ^ height - 1 < count then heightLoop count (height + 1) else height)"
  by pat_completeness auto
termination
  by (relation "measure (\<lambda>(count, height). nat (count + 1 - 2 ^ height))") auto

definition getTreeHeightByNodesCount :: "int \<Rightarrow> exception + nat" where
  "getTreeHeightByNodesCount count =
     (if count < 0 then Inl AVLTreeInvalidArgException else Inr (heightLoop count 0))"

text \<open>
  The functions below change the field \<open>size\<close> of the tree while they run; it is
  threaded through them as the argument and result \<open>sz\<close>. \<open>k0\<close> and \<open>d0\<close> are the key and
  the payload of a node made by the constructor \<open>Node()\<close>.
\<close>

fun recursiveDestruct :: "('k, 'v) node \<Rightarrow> int \<Rightarrow> int" where
  "recursiveDestruct Null sz = sz"
| "recursiveDestruct (Node k d l r lh rh) sz =
     recursiveDestruct r (recursiveDestruct l sz) - 1"

fun createBlankTree :: "'k \<Rightarrow> 'v \<Rightarrow> nat \<Rightarrow> int \<Rightarrow> ('k, 'v) node \<times> int" where
  "createBlankTree k0 d0 0 sz = (Null, sz)"
| "createBlankTree k0 d0 (Suc height) sz =
     (let (left, size1) = createBlankTree k0 d0 height sz;
          (right, size2) = createBlankTree k0 d0 height size1;
          root = Node k0 d0 Null Null 0 0;
          root = setLeft left root;
          root = setRight right root
      in (root, size2 + 1))"

text \<open>
  \<open>trimTreeInOrder node (current_size, sz) requested_size\<close>: a removed leaf
  reports the flag \<open>True\<close> and the null pointer (\<open>disconnectFromParent\<close>).
\<close>

fun trimTreeInOrder ::
  "('k, 'v) node \<Rightarrow> int \<times> int \<Rightarrow> int \<Rightarrow> (bool \<times> ('k, 'v) node) \<times> (int \<times> int)" where
  "trimTreeInOrder Null (current_size, sz) requested_size =
     ((False, Null), (current_size, sz))"
| "trimTreeInOrder (Node k d l r lh rh) (current_size, sz) requested_size =
     (if current_size = requested_size
      then ((False, Node k d l r lh rh), (current_size, sz))
      else
        (let (resl, st1) = trimTreeInOrder l (current_size, sz) requested_size;
             node = relinkLeft resl (Node k d l r lh rh)
         in if isLeaf node then ((True, Null), (fst st1 - 1, snd st1 - 1))
            else
              (let (resr, st2) = trimTreeInOrder (getRight node) st1 requested_size;
                   node = relinkRight resr node
               in ((False, updateRightHeight (updateLeftHeight node)), st2))))"

text \<open>
  \<open>fillTreeInOrder node ordered_data ordered_keys index\<close> returns the node and the
  new index; \<open>None\<close> when it reads an array out of range.
\<close>

fun fillTreeInOrder ::
  "('k, 'v) node \<Rightarrow> 'v list \<Rightarrow> 'k list \<Rightarrow> nat \<Rightarrow> (('k, 'v) node \<times> nat) option" where
  "fillTreeInOrder Null ordered_data ordered_keys index = Some (Null, index)"
| "fillTreeInOrder (Node k d l r lh rh) ordered_data ordered_keys index =
     (case fillTreeInOrder l ordered_data ordered_keys index of
        None \<Rightarrow> None
      | Some (l', i) \<Rightarrow>
          (if i < length ordered_data \<and> i < length ordered_keys then
             (case fillTreeInOrder r ordered_data ordered_keys (i + 1) of
                None \<Rightarrow> None
              | Some (r', j) \<Rightarrow>
                  Some (Node (ordered_keys ! i) (ordered_data ! i) l' r' lh rh, j))
           else None))"

text \<open>
  \<open>generateInOrder\<close>: a buffer is \<open>None\<close> (a null pointer) or an array. \<open>arr_data\<close>
  is an array of pointers to payloads, modelled by the payloads they point to.
\<close>

definition generateInOrder ::
  "'k \<Rightarrow> 'v \<Rightarrow> 'v list option \<Rightarrow> 'k list option \<Rightarrow> int \<Rightarrow> ('k, 'v) AVLTree
     \<Rightarrow> ((exception + unit) \<times> ('k, 'v) AVLTree) option" where
  "generateInOrder k0 d0 arr_data arr_keys count t =
     (if count < 0 then Some (Inl AVLTreeInvalidArgException, t)
      else if count = 0 then Some (Inr (), t)
      else
        (case (arr_data, arr_keys) of
           (Some data, Some keys) \<Rightarrow>
             (if length data < nat count then None
              else
                (let copied_data = take (nat count) data;
                     built =
                       (if sizeT t \<noteq> count then
                          (let size0 = recursiveDestruct (rootT t) (sizeT t) in
                           case getTreeHeightByNodesCount count of
                             Inl e \<Rightarrow> None
                           | Inr requested_height \<Rightarrow>
                               (let current_size = 2 ^ requested_height - 1;
                                    (r, size1) = createBlankTree k0 d0 requested_height size0;
                                    ((removed, r'), (cs, size2)) =
                                       trimTreeInOrder r (current_size, size1) count
                                in if removed then None else Some (r', size2)))
                        else Some (rootT t, sizeT t))
                 in case built of
                      None \<Rightarrow> None
                    | Some (r, size') \<Rightarrow>
                        (case fillTreeInOrder r copied_data keys 0 of
                           None \<Rightarrow> None
                         | Some (r', i) \<Rightarrow>
                             Some (Inr (), \<lparr>rootT = r', minimal = updateMinimal r',
                                            sizeT = size'\<rparr>))))
         | _ \<Rightarrow> Some (Inl AVLTreeNullArgException, t)))"

subsection \<open>In-order contents\<close>

text \<open>The keys and payloads of a subtree in in-order, as \<open>inorderOutputAux\<close> visits them.\<close>

fun inorder :: "('k, 'v) node \<Rightarrow> ('k \<times> 'v) list" where
  "inorder Null = []"
| "inorder (Node k d l r lh rh) = inorder l @ (k, d) # inorder r"

text \<open>
  Modelled from the spec: \<open>inOrderExtractKeys\<close> and \<open>inOrderExtractData\<close> are called
  by \<open>HashMap::Resize\<close> but the tree of avltree.hpp does not define them (it has
  \<open>inOrderExtract\<close>, which collects pointers to the payloads in in-order). The spec:
  every bucket is drained in sorted order, extracting its keys and owned-value-pointers
  without copying payload objects.
\<close>

definition inOrderExtractKeys :: "('k, 'v) AVLTree \<Rightarrow> 'k list" where
  "inOrderExtractKeys t = map fst (inorder (rootT t))"

definition inOrderExtractData :: "('k, 'v) AVLTree \<Rightarrow> 'v list" where
  "inOrderExtractData t = map snd (inorder (rootT t))"

section \<open>The hash map of the second file\<close>

text \<open>
  Keys are \<open>int\<close>, so that the cast \<open>(int) key\<close> of \<open>hashFunction\<close> is the identity.
  The payloads live in a heap of cells: a \<open>V*\<close> is the index of a cell,
  \<open>new V(obj)\<close> appends a cell and \<open>delete\<close> empties one. The buckets are trees
  from keys to such pointers.
\<close>

type_synonym 'v heap = "'v option list"

definition new :: "'v \<Rightarrow> 'v heap \<Rightarrow> nat \<times> 'v heap" where
  "new obj h = (length h, h @ [Some obj])"

definition delete :: "nat \<Rightarrow> 'v heap \<Rightarrow> 'v heap option" where
  "delete p h = (if p < length h \<and> h ! p \<noteq> None then Some (h[p := None]) else None)"

record HashMap =
  entries :: "(int, nat) AVLTree list"
  m_size :: int
  m_count :: int

definition INITIAL_SIZE :: int where
  "INITIAL_SIZE = 10"

definition HashMap_init :: HashMap where
  "HashMap_init =
     \<lparr>entries = replicate (nat INITIAL_SIZE) AVLTree_init, m_size = INITIAL_SIZE, m_count = 0\<rparr>"

text \<open>The operator \<open>%\<close> of C++ truncates towards zero: it is \<open>smod\<close>.\<close>

definition hashFunction :: "HashMap \<Rightarrow> int \<Rightarrow> int" where
  "hashFunction m key =
     (let res = key smod m_size m in if 0 \<le> res then res else res + m_size m)"

text \<open>\<open>entryAt m i\<close> is \<open>entries[i]\<close>; \<open>None\<close> outside the array.\<close>

definition entryAt :: "HashMap \<Rightarrow> int \<Rightarrow> (int, nat) AVLTree option" where
  "entryAt m i =
     (if 0 \<le> i \<and> nat i < length (entries m) then Some (entries m ! nat i) else None)"

definition HashMap_Contains :: "HashMap \<Rightarrow> int \<Rightarrow> bool option" where
  "HashMap_Contains m key =
     (case entryAt m (hashFunction m key) of
        None \<Rightarrow> None
      | Some t \<Rightarrow> (case Find key t of Inl e \<Rightarrow> Some False | Inr p \<Rightarrow> Some True))"

text \<open>
  The loops of \<open>Resize\<close>. The inner loop reinserts the first \<open>tree_size\<close> keys and
  pointers of one old bucket; the outer loop visits the old buckets in order. A throw of
  the tree's \<open>Insert\<close> leaves the function.
\<close>

fun reinsert ::
  "(int \<times> nat) list \<Rightarrow> HashMap \<Rightarrow> ((exception + unit) \<times> HashMap) option" where
  "reinsert [] m = Some (Inr (), m)"
| "reinsert ((temp_key, temp_obj) # rest) m =
     (let entry_index = hashFunction m temp_key in
      case entryAt m entry_index of
        None \<Rightarrow> None
      | Some t \<Rightarrow>
          (case Insert temp_key temp_obj t of
             None \<Rightarrow> None
           | Some (Inl e, t') \<Rightarrow>
               Some (Inl e, m\<lparr>entries := (entries m)[nat entry_index := t']\<rparr>)
           | Some (Inr u, t') \<Rightarrow>
               reinsert rest
                 (m\<lparr>entries := (entries m)[nat entry_index := t'],
                    m_count := m_count m + 1\<rparr>)))"

fun rehash ::
  "(int, nat) AVLTree list \<Rightarrow> HashMap \<Rightarrow> ((exception + unit) \<times> HashMap) option" where
  "rehash [] m = Some (Inr (), m)"
| "rehash (old # olds) m =
     (let tree_size = getSize old;
          tree_data = inOrderExtractData old;
          tree_keys = inOrderExtractKeys old
      in if tree_size < 0 \<or> nat tree_size > length tree_keys \<or> nat tree_size > length tree_data
         then None
         else
           (case reinsert (take (nat tree_size) (zip tree_keys tree_data)) m of
              None \<Rightarrow> None
            | Some (Inl e, m') \<Rightarrow> Some (Inl e, m')
            | Some (Inr u, m') \<Rightarrow> rehash olds m'))"

definition Resize :: "bool \<Rightarrow> HashMap \<Rightarrow> ((exception + unit) \<times> HashMap) option" where
  "Resize increase m =
     (if \<not> increase \<and> m_size m = INITIAL_SIZE then Some (Inr (), m)
      else
        (let old_size = m_size m;
             new_size = (if increase then m_size m * 2 else m_size m sdiv 2);
             old_entries = entries m;
             m' = \<lparr>entries = replicate (nat new_size) AVLTree_init, m_size = new_size,
                   m_count = 0\<rparr>
         in if nat old_size > length old_entries then None
            else rehash (take (nat old_size) old_entries) m'))"

text \<open>
  \<open>loadFactorCheckAndResize\<close> divides in double precision. For counts and sizes of
  type \<open>int\<close> the quotient is compared with 0.75 and 0.25 as the exact quotient is
  (both constants are doubles, and a quotient on the other side of one of them is
  further from it than the rounding error), so the model compares real numbers.
\<close>

definition loadFactorCheckAndResize :: "HashMap \<Rightarrow> ((exception + unit) \<times> HashMap) option" where
  "loadFactorCheckAndResize m =
     (let load_factor = real_of_int (m_count m) / real_of_int (m_size m) in
      if 0.75 \<le> load_factor then Resize True m
      else if 0.25 \<ge> load_factor then Resize False m
      else Some (Inr (), m))"

text \<open>
  The operations of the map work on the map and the heap of payloads. \<open>HashMap_Insert\<close>
  returns the pointer \<open>to_add\<close>.
\<close>

definition HashMap_Insert ::
  "int \<Rightarrow> 'v \<Rightarrow> HashMap \<times> 'v heap \<Rightarrow> ((exception + nat) \<times> HashMap \<times> 'v heap) option" where
  "HashMap_Insert key obj s =
     (let m = fst s; h = snd s in
      case HashMap_Contains m key of
        None \<Rightarrow> None
      | Some True \<Rightarrow> Some (Inl HashMapKeyAlreadyExistsException, s)
      | Some False \<Rightarrow>
          (let entry_index = hashFunction m key;
               (to_add, h') = new obj h
           in case entryAt m entry_index of
                None \<Rightarrow> None
              | Some t \<Rightarrow>
                  (case Insert key to_add t of
                     None \<Rightarrow> None
                   | Some (Inl e, t') \<Rightarrow>
                       Some (Inl e, m\<lparr>entries := (entries m)[nat entry_index := t']\<rparr>, h')
                   | Some (Inr u, t') \<Rightarrow>
                       (case loadFactorCheckAndResize
                               (m\<lparr>entries := (entries m)[nat entry_index := t'],
                                  m_count := m_count m + 1\<rparr>) of
                          None \<Rightarrow> None
                        | Some (Inl e, m') \<Rightarrow> Some (Inl e, m', h')
                        | Some (Inr u, m') \<Rightarrow> Some (Inr to_add, m', h')))))"

text \<open>
  The key of \<open>HashMap::Delete\<close> is a reference too (\<open>const K&\<close>), and the caller
  may pass a reference to a payload of the map, as in \<open>Delete(Find(k))\<close> for a map from
  \<open>int\<close> to \<open>int\<close>. The code reads it before it frees the payload of the entry
  (\<open>Contains\<close>, \<open>hashFunction\<close>, \<open>Find\<close>) and once more after that, in the
  \<open>Delete\<close> of the bucket. The argument is a function that reads the referenced value
  from the heap, \<open>None\<close> when the storage it refers to is no longer live:
  \<open>keyByValue k\<close> is a reference to storage outside the heap of payloads, and
  \<open>payloadCell p\<close> a reference to the payload in cell \<open>p\<close>. The bucket holds
  pointers, which no key reference can refer to, so its \<open>Delete\<close> receives the value
  read after the payload was freed.
\<close>

type_synonym 'v mapKeyRef = "'v heap \<Rightarrow> int option"

definition keyByValue :: "int \<Rightarrow> 'v mapKeyRef" where
  "keyByValue k = (\<lambda>h. Some k)"


definition HashMap_Delete ::
  "'v mapKeyRef \<Rightarrow> HashMap \<times> 'v heap \<Rightarrow> ((exception + unit) \<times> HashMap \<times> 'v heap) option" where
  "HashMap_Delete key s =
     (let m = fst s; h = snd s in
      case key h of
        None \<Rightarrow> None
      | Some k \<Rightarrow>
          (case HashMap_Contains m k of
             None \<Rightarrow> None
           | Some False \<Rightarrow> Some (Inl HashMapKeyNotFoundException, s)
           | Some True \<Rightarrow>
               (let entry_index = hashFunction m k in
                case entryAt m entry_index of
                  None \<Rightarrow> None
                | Some t \<Rightarrow>
                    (case Find k t of
                       Inl e \<Rightarrow> Some (Inl e, s)
                     | Inr tree_it \<Rightarrow>
                         (case deref t (Some tree_it) of
                            Inl e \<Rightarrow> Some (Inl e, s)
                          | Inr p \<Rightarrow>
                              (case delete p h of
                                 None \<Rightarrow> None
                               | Some h' \<Rightarrow>
                                   (case key h' of
                                      None \<Rightarrow> None
                                    | Some k' \<Rightarrow>
                                        (case Delete (byValue k') t of
                                           None \<Rightarrow> None
                                         | Some (Inl e, t') \<Rightarrow>
                                             Some (Inl e,
                                               m\<lparr>entries := (entries m)[nat entry_index := t']\<rparr>,
                                               h')
                                         | Some (Inr u, t') \<Rightarrow>
                                             (case loadFactorCheckAndResize
                                                (m\<lparr>entries := (entries m)[nat entry_index := t'],
                                                   m_count := m_count m - 1\<rparr>) of
                                                None \<Rightarrow> None
                                              | Some (Inl e, m') \<Rightarrow> Some (Inl e, m', h')
                                              | Some (Inr u, m') \<Rightarrow>
                                                  Some (Inr (), m', h'))))))))))"


section \<open>Notions of the specification\<close>

text \<open>
  The true height of a subtree, recomputed from its shape; the balance condition on true
  heights; and the agreement of every cached height with the true one.
\<close>

fun height :: "('k, 'v) node \<Rightarrow> int" where
  "height Null = 0"
| "height (Node k d l r lh rh) = max (height l) (height r) + 1"

fun balanced :: "('k, 'v) node \<Rightarrow> bool" where
  "balanced Null = True"
| "balanced (Node k d l r lh rh) =
     (\<bar>height l - height r\<bar> \<le> 1 \<and> balanced l \<and> balanced r)"

fun cachedHeightsExact :: "('k, 'v) node \<Rightarrow> bool" where
  "cachedHeightsExact Null = True"
| "cachedHeightsExact (Node k d l r lh rh) =
     (lh = height l \<and> rh = height r \<and> cachedHeightsExact l \<and> cachedHeightsExact r)"

text \<open>
  A sequence of public mutations. \<open>DeleteOp key\<close> is a \<open>Delete\<close> whose argument
  is held in storage outside the tree. An operation that throws leaves the tree as the
  function left it and the sequence goes on.
\<close>

datatype ('k, 'v) operation = InsertOp 'k 'v | DeleteOp 'k

fun applyOp ::
  "('k::linorder, 'v) operation \<Rightarrow> ('k, 'v) AVLTree \<Rightarrow> ('k, 'v) AVLTree option" where
  "applyOp (InsertOp key data) t = map_option snd (Insert key data t)"
| "applyOp (DeleteOp key) t = map_option snd (Delete (byValue key) t)"

fun applyOps ::
  "('k::linorder, 'v) operation list \<Rightarrow> ('k, 'v) AVLTree \<Rightarrow> ('k, 'v) AVLTree option" where
  "applyOps [] t = Some t"
| "applyOps (x # xs) t = (case applyOp x t of None \<Rightarrow> None | Some t' \<Rightarrow> applyOps xs t')"

text \<open>
  The search-tree order on keys, and the invariant that ties each cached height to
  the child pointer beside it: a cached height is never negative and is 0 exactly when the
  child is null (\<open>updateLeftHeight\<close> and \<open>updateRightHeight\<close> establish it, and
  \<open>rotate\<close> relies on it when it dereferences the child of an unbalanced node).
\<close>

fun bst :: "('k::linorder, 'v) node \<Rightarrow> bool" where
  "bst Null = True"
| "bst (Node k d l r lh rh) =
     (bst l \<and> bst r \<and> (\<forall>x \<in> set (inorder l). fst x < k) \<and> (\<forall>x \<in> set (inorder r). k < fst x))"

fun cacheNull :: "('k, 'v) node \<Rightarrow> bool" where
  "cacheNull Null = True"
| "cacheNull (Node k d l r lh rh) =
     ((lh = 0 \<longleftrightarrow> l = Null) \<and> (rh = 0 \<longleftrightarrow> r = Null) \<and> 0 \<le> lh \<and> 0 \<le> rh
      \<and> cacheNull l \<and> cacheNull r)"

definition treeInv :: "('k::linorder, 'v) AVLTree \<Rightarrow> bool" where
  "treeInv t =
     (bst (rootT t) \<and> cacheNull (rootT t) \<and> sizeT t = int (length (inorder (rootT t))))"

text \<open>
  Two abbreviations for the proofs: \<open>sameNodes n' n\<close> says that \<open>n'\<close> is a non-null
  subtree with the in-order contents of \<open>n\<close> that satisfies \<open>cacheNull\<close>, and
  \<open>after n S N\<close> that \<open>n\<close> is a search tree satisfying \<open>cacheNull\<close> whose in-order
  contents are the \<open>N\<close> elements of \<open>S\<close>.
\<close>

definition sameNodes :: "('k, 'v) node \<Rightarrow> ('k, 'v) node \<Rightarrow> bool" where
  "sameNodes n' n = (n' \<noteq> Null \<and> cacheNull n' \<and> inorder n' = inorder n)"

definition after :: "('k::linorder, 'v) node \<Rightarrow> ('k \<times> 'v) set \<Rightarrow> nat \<Rightarrow> bool" where
  "after n S N = (cacheNull n \<and> bst n \<and> set (inorder n) = S \<and> length (inorder n) = N)"


definition bottomLeaves :: "nat \<Rightarrow> int" where
  "bottomLeaves h = (if h = 0 then 0 else 2 ^ (h - 1))"

text \<open>
  The contents of the map: the set of (key, pointer) pairs held by its buckets. The
  invariant of the map: the capacity is positive and is the length of the bucket array,
  every bucket is a well-formed tree whose keys hash to its own index, and \<open>_count\<close>
  is the sum of the sizes of the buckets. The load invariant: the capacity is 10 doubled
  some number of times, the load factor is below 0.75, and above 0.25 unless the capacity
  is the initial one.
\<close>

definition mapPairs :: "HashMap \<Rightarrow> (int \<times> nat) set" where
  "mapPairs m = (\<Union>t \<in> set (entries m). set (inorder (rootT t)))"

definition mapWf :: "HashMap \<Rightarrow> bool" where
  "mapWf m =
     (0 < m_size m \<and> length (entries m) = nat (m_size m)
      \<and> (\<forall>i < length (entries m).
            treeInv (entries m ! i)
            \<and> (\<forall>x \<in> set (inorder (rootT (entries m ! i))). hashFunction m (fst x) = int i))
      \<and> m_count m = sum_list (map sizeT (entries m)))"

definition loadInv :: "HashMap \<Rightarrow> bool" where
  "loadInv m =
     ((\<exists>n. m_size m = 10 * 2 ^ n) \<and> 4 * m_count m < 3 * m_size m
      \<and> (10 < m_size m \<longrightarrow> m_size m < 4 * m_count m))"

text \<open>
  The heap invariant: every pointer held by the map points to a live cell of the heap,
  and no two entries hold the same pointer.
\<close>

definition heapOk :: "HashMap \<Rightarrow> 'v heap \<Rightarrow> bool" where
  "heapOk m h =
     ((\<forall>x \<in> mapPairs m. snd x < length h \<and> h ! snd x \<noteq> None) \<and> inj_on snd (mapPairs m))"

text \<open>
  \<open>sizeAfter s c\<close> is the capacity that \<open>loadFactorCheckAndResize\<close> leaves when it
  finds the capacity \<open>s\<close> and the count \<open>c\<close>, with the comparisons of the load factor
  written on integers. \<open>stateInv\<close> collects the three invariants of a map and its heap.
\<close>

definition sizeAfter :: "int \<Rightarrow> int \<Rightarrow> int" where
  "sizeAfter s c = (if 3 * s \<le> 4 * c then s * 2
                   else if 4 * c \<le> s \<and> s \<noteq> INITIAL_SIZE then s div 2 else s)"

definition stateInv :: "HashMap \<times> 'v heap \<Rightarrow> bool" where
  "stateInv s = (mapWf (fst s) \<and> loadInv (fst s) \<and> heapOk (fst s) (snd s))"

text \<open>The load factor \<open>count / capacity\<close> of the specification.\<close>

definition loadFactor :: "HashMap \<Rightarrow> real" where
  "loadFactor m = real_of_int (m_count m) / real_of_int (m_size m)"

text \<open>
  A sequence of public mutations of the map. \<open>MapDelete key\<close> is a \<open>Delete\<close> whose
  argument is held in storage outside the heap of payloads. An operation that throws
  leaves the map and the heap as the function left them and the sequence goes on.
\<close>

datatype 'v mapOperation = MapInsert int 'v | MapDelete int

fun applyMapOp :: "'v mapOperation \<Rightarrow> HashMap \<times> 'v heap \<Rightarrow> (HashMap \<times> 'v heap) option" where
  "applyMapOp (MapInsert key obj) s = map_option snd (HashMap_Insert key obj s)"
| "applyMapOp (MapDelete key) s = map_option snd (HashMap_Delete (keyByValue key) s)"

fun applyMapOps ::
  "'v mapOperation list \<Rightarrow> HashMap \<times> 'v heap \<Rightarrow> (HashMap \<times> 'v heap) option" where
  "applyMapOps [] s = Some s"
| "applyMapOps (x # xs) s =
     (case applyMapOp x s of None \<Rightarrow> None | Some s' \<Rightarrow> applyMapOps xs s')"

section \<open>Properties\<close>

subsection \<open>Stale cached heights after Insert\<close>

text \<open>
  C1 (the code departs from the claim). After every public mutation the tree should be
  height-balanced on the true, recomputed heights. Inserting the keys 50, 30, 70, 20, 10, 5
  into the empty tree gives a tree whose root has a left subtree of true height 3 and a
  right subtree of true height 1. The cause is \<open>recursiveInsert\<close> at a node with two
  children: after the walk into the left child it calls \<open>updateRightHeight\<close>, so the
  cached left heights of 20 and of 50 stay too small and \<open>rotate\<close> sees the
  balance factors 0 and 1.
\<close>

theorem C1_inserts_leave_tree_unbalanced:
  "applyOps [InsertOp 50 (), InsertOp 30 (), InsertOp 70 (), InsertOp 20 (), InsertOp 10 (),
             InsertOp 5 ()] (AVLTree_init :: (int, unit) AVLTree) =
     Some \<lparr>rootT =
             Node 50 ()
               (Node 20 () (Node 10 () (Node 5 () Null Null 0 0) Null 1 0)
                  (Node 30 () Null Null 0 0) 1 1)
               (Node 70 () Null Null 0 0) 2 1,
           minimal = Some [L, L, L], sizeT = 6\<rparr>
   \<and> height (Node 20 () (Node 10 () (Node 5 () Null Null 0 0) Null 1 0)
                 (Node 30 () Null Null 0 0) 1 1 :: (int, unit) node) = 3
   \<and> height (Node 70 () Null Null 0 0 :: (int, unit) node) = 1
   \<and> \<not> balanced (Node 50 ()
               (Node 20 () (Node 10 () (Node 5 () Null Null 0 0) Null 1 0)
                  (Node 30 () Null Null 0 0) 1 1)
               (Node 70 () Null Null 0 0) 2 1 :: (int, unit) node)"
  by (simp add: Insert_def Empty_def getSize_def AVLTree_init_def Find_def)

text \<open>
  C2 (the code departs from the claim). Every cached height should equal the true height
  of its subtree, and at a node with both children the side that was walked should be
  refreshed on return. After inserting 50, 30, 70 the root has both children; inserting 20
  walks into the left child, and \<open>recursiveInsert\<close> returns the root with its cached
  left height still 1 while the left subtree now has true height 2.
\<close>

theorem C2_full_node_left_height_not_refreshed:
  "recursiveInsert
     (Node 50 () (Node 30 () Null Null 0 0) (Node 70 () Null Null 0 0) 1 1)
     (Node (20::int) () Null Null 0 0) =
     Some (False,
           Node 50 () (Node 30 () (Node 20 () Null Null 0 0) Null 1 0)
             (Node 70 () Null Null 0 0) 1 1)
   \<and> applyOps [InsertOp 50 (), InsertOp 30 (), InsertOp 70 (), InsertOp 20 ()]
        (AVLTree_init :: (int, unit) AVLTree) =
     Some \<lparr>rootT =
             Node 50 () (Node 30 () (Node 20 () Null Null 0 0) Null 1 0)
               (Node 70 () Null Null 0 0) 1 1,
           minimal = Some [L, L], sizeT = 4\<rparr>
   \<and> height (Node 30 () (Node 20 () Null Null 0 0) Null 1 0 :: (int, unit) node) = 2
   \<and> \<not> cachedHeightsExact
         (Node 50 () (Node 30 () (Node 20 () Null Null 0 0) Null 1 0)
            (Node 70 () Null Null 0 0) 1 1 :: (int, unit) node)"
  by (simp add: Insert_def Empty_def getSize_def AVLTree_init_def Find_def)

subsection \<open>The iterator at a missing child and at the root\<close>

lemma nodeAt_snoc:
  "nodeAt n (p @ [x]) =
     (case nodeAt n p of Null \<Rightarrow> Null
      | Node k d l r lh rh \<Rightarrow> (case x of L \<Rightarrow> l | R \<Rightarrow> r))"
  by (induction n p rule: nodeAt.induct) (auto split: node.splits dir.splits)

text \<open>
  C7, as stated, fails: moving to a missing child signals nothing at that move. On the
  tree with the single key 1, \<open>MoveLeft\<close> and \<open>MoveRight\<close> from the root return
  normally, with the iterator's \<open>current\<close> null.
\<close>

theorem C7_move_to_missing_child_counterexample:
  "MoveLeft \<lparr>rootT = Node (1::int) () Null Null 0 0, minimal = Some [], sizeT = 1\<rparr> (Some [])
     = Inr None
   \<and> MoveLeft \<lparr>rootT = Node (1::int) () Null Null 0 0, minimal = Some [], sizeT = 1\<rparr> (Some [])
     \<noteq> Inl AVLTreeIteratorReachedEnd
   \<and> MoveRight \<lparr>rootT = Node (1::int) () Null Null 0 0, minimal = Some [], sizeT = 1\<rparr> (Some [])
     = Inr None"
  by (simp add: MoveLeft_def MoveRight_def)

text \<open>
  C7, amended. From an iterator at a node of the tree, a move to a child that exists
  gives the iterator at that child, and a move to a missing child returns normally with
  the past-the-end iterator (null \<open>current\<close>); every move and the dereference of the
  past-the-end iterator throw \<open>AVLTreeIteratorReachedEnd\<close>. A move to the parent from
  the root throws the distinct \<open>AVLTreeIteratorReachedRoot\<close> at that move, and from any
  other node it gives the iterator at the parent.
\<close>

theorem C7_iterator_moves:
  assumes "nodeAt (rootT t) p = Node k d l r lh rh"
  shows "MoveLeft t (Some p) = (if l = Null then Inr None else Inr (Some (p @ [L])))
    \<and> MoveRight t (Some p) = (if r = Null then Inr None else Inr (Some (p @ [R])))
    \<and> nodeAt (rootT t) (p @ [L]) = l
    \<and> nodeAt (rootT t) (p @ [R]) = r
    \<and> MoveLeft t None = Inl AVLTreeIteratorReachedEnd
    \<and> MoveRight t None = Inl AVLTreeIteratorReachedEnd
    \<and> moveToParent t None = Inl AVLTreeIteratorReachedEnd
    \<and> deref t None = Inl AVLTreeIteratorReachedEnd
    \<and> moveToParent t (Some p) =
          (if p = [] then Inl AVLTreeIteratorReachedRoot else Inr (Some (butlast p)))
    \<and> AVLTreeIteratorReachedRoot \<noteq> AVLTreeIteratorReachedEnd"
  using assms
  by (simp add: MoveLeft_def MoveRight_def moveToParent_def deref_def nodeAt_snoc
        split: node.splits)

theorem C7_iterator_moves_witness:
  "MoveLeft \<lparr>rootT = Node (2::int) () (Node 1 () Null Null 0 0) Null 1 0,
              minimal = Some [L], sizeT = 2\<rparr> (Some []) = Inr (Some [L])
   \<and> MoveRight \<lparr>rootT = Node (2::int) () (Node 1 () Null Null 0 0) Null 1 0,
              minimal = Some [L], sizeT = 2\<rparr> (Some []) = Inr None
   \<and> moveToParent \<lparr>rootT = Node (2::int) () (Node 1 () Null Null 0 0) Null 1 0,
              minimal = Some [L], sizeT = 2\<rparr> (Some []) = Inl AVLTreeIteratorReachedRoot"
  using C7_iterator_moves
    [of "\<lparr>rootT = Node (2::int) () (Node 1 () Null Null 0 0) Null 1 0,
           minimal = Some [L], sizeT = 2\<rparr>" "[]" 2 "()" "Node 1 () Null Null 0 0" Null 1 0]
  by simp

subsection \<open>Argument checks of the bulk rebuild\<close>

text \<open>
  C9, as stated, fails: with a count of 0 null buffers signal nothing (the function
  returns before it looks at them), and with a negative count they are not looked at
  either.
\<close>

theorem C9_null_buffers_counterexample:
  "generateInOrder (0::int) () None None 0 AVLTree_init = Some (Inr (), AVLTree_init)
   \<and> generateInOrder (0::int) () None None (- 1) AVLTree_init =
       Some (Inl AVLTreeInvalidArgException, AVLTree_init)"
  by (simp add: generateInOrder_def)

text \<open>
  C9, amended. \<open>generateInOrder\<close> checks the count first: a negative count throws
  \<open>AVLTreeInvalidArgException\<close> whatever the buffers are, and a count of 0 returns
  normally whatever the buffers are; with a positive count a null data or keys buffer
  throws \<open>AVLTreeNullArgException\<close>. In all three cases the tree is left as it was.
\<close>

theorem C9_generateInOrder_argument_checks:
  "(count < 0 \<longrightarrow>
      generateInOrder k0 d0 arr_data arr_keys count t = Some (Inl AVLTreeInvalidArgException, t))
   \<and> (count = 0 \<longrightarrow> generateInOrder k0 d0 arr_data arr_keys count t = Some (Inr (), t))
   \<and> (count > 0 \<and> (arr_data = None \<or> arr_keys = None) \<longrightarrow>
      generateInOrder k0 d0 arr_data arr_keys count t = Some (Inl AVLTreeNullArgException, t))"
  by (auto simp add: generateInOrder_def split: option.splits)

theorem C9_generateInOrder_argument_checks_witness:
  "generateInOrder (0::int) () (Some [()]) (Some [1]) (- 1) AVLTree_init =
     Some (Inl AVLTreeInvalidArgException, AVLTree_init)
   \<and> generateInOrder (0::int) () (Some [()]) None 0 AVLTree_init = Some (Inr (), AVLTree_init)
   \<and> generateInOrder (0::int) () None (Some [1]) 1 AVLTree_init =
     Some (Inl AVLTreeNullArgException, AVLTree_init)"
  using C9_generateInOrder_argument_checks [of "- 1" "0::int" "()" "Some [()]" "Some [1]" AVLTree_init]
    C9_generateInOrder_argument_checks [of 0 "0::int" "()" "Some [()]" None AVLTree_init]
    C9_generateInOrder_argument_checks [of 1 "0::int" "()" None "Some [1]" AVLTree_init]
  by simp

subsection \<open>Rotations, Insert and Delete keep the search-tree order\<close>

lemma getHeight_pos: "cacheNull n \<Longrightarrow> n \<noteq> Null \<Longrightarrow> 1 \<le> getHeight n"
  by (cases n) auto

lemma cacheNull_setLeft:
  "cacheNull (Node k d l r lh rh) \<Longrightarrow> cacheNull son \<Longrightarrow> cacheNull (setLeft son (Node k d l r lh rh))"
  using getHeight_pos[of son] by (auto split: node.splits)

lemma cacheNull_setRight:
  "cacheNull (Node k d l r lh rh) \<Longrightarrow> cacheNull son \<Longrightarrow> cacheNull (setRight son (Node k d l r lh rh))"
  using getHeight_pos[of son] by (auto split: node.splits)

lemma inorder_setLeft: "inorder (setLeft son (Node k d l r lh rh)) = inorder son @ (k, d) # inorder r"
  by simp
lemma inorder_setRight: "inorder (setRight son (Node k d l r lh rh)) = inorder l @ (k, d) # inorder son"
  by simp


lemma rotateLL_ok:
  assumes "cacheNull n" "n \<noteq> Null" "getLeft n \<noteq> Null"
  shows "\<exists>n'. rotateLL n = Some n' \<and> sameNodes n' n"
proof -
  obtain k d l r lh rh where n: "n = Node k d l r lh rh" using assms(2) by (cases n) auto
  obtain ak ad al ar alh arh where l: "l = Node ak ad al ar alh arh"
    using assms(3) n by (cases l) auto
  show ?thesis using assms(1) getHeight_pos[of ar] unfolding n l sameNodes_def
    by (auto split: node.splits)
qed

lemma rotateRR_ok:
  assumes "cacheNull n" "n \<noteq> Null" "getRight n \<noteq> Null"
  shows "\<exists>n'. rotateRR n = Some n' \<and> sameNodes n' n"
proof -
  obtain k d l r lh rh where n: "n = Node k d l r lh rh" using assms(2) by (cases n) auto
  obtain bk bd bl br blh brh where r: "r = Node bk bd bl br blh brh"
    using assms(3) n by (cases r) auto
  show ?thesis using assms(1) getHeight_pos[of bl] unfolding n r sameNodes_def
    by (auto split: node.splits)
qed

lemma rotateLR_ok:
  assumes "cacheNull n" "n \<noteq> Null" "getLeft n \<noteq> Null" "getRight (getLeft n) \<noteq> Null"
  shows "\<exists>n'. rotateLR n = Some n' \<and> sameNodes n' n"
proof -
  obtain k d l r lh rh where n: "n = Node k d l r lh rh" using assms(2) by (cases n) auto
  have cl: "cacheNull l" "l \<noteq> Null" "getRight l \<noteq> Null" using assms n by auto
  from rotateRR_ok[OF cl] obtain b where b: "rotateRR l = Some b" "sameNodes b l" by blast
  let ?m = "setLeft b (Node k d l r lh rh)"
  have m: "cacheNull ?m" "?m \<noteq> Null" "getLeft ?m \<noteq> Null"
    using cacheNull_setLeft[of k d l r lh rh b] assms(1) b(2) unfolding n sameNodes_def by auto
  from rotateLL_ok[OF m] obtain n' where n': "rotateLL ?m = Some n'" "sameNodes n' ?m" by blast
  have "inorder ?m = inorder n" using b(2) unfolding n sameNodes_def by simp
  then show ?thesis using n' b(1) unfolding n sameNodes_def by simp
qed

lemma rotateRL_ok:
  assumes "cacheNull n" "n \<noteq> Null" "getRight n \<noteq> Null" "getLeft (getRight n) \<noteq> Null"
  shows "\<exists>n'. rotateRL n = Some n' \<and> sameNodes n' n"
proof -
  obtain k d l r lh rh where n: "n = Node k d l r lh rh" using assms(2) by (cases n) auto
  have cr: "cacheNull r" "r \<noteq> Null" "getLeft r \<noteq> Null" using assms n by auto
  from rotateLL_ok[OF cr] obtain a where a: "rotateLL r = Some a" "sameNodes a r" by blast
  let ?m = "setRight a (Node k d l r lh rh)"
  have m: "cacheNull ?m" "?m \<noteq> Null" "getRight ?m \<noteq> Null"
    using cacheNull_setRight[of k d l r lh rh a] assms(1) a(2) unfolding n sameNodes_def by auto
  from rotateRR_ok[OF m] obtain n' where n': "rotateRR ?m = Some n'" "sameNodes n' ?m" by blast
  have "inorder ?m = inorder n" using a(2) unfolding n sameNodes_def by simp
  then show ?thesis using n' a(1) unfolding n sameNodes_def by simp
qed

lemma rotateT_ok:
  assumes "cacheNull n" "n \<noteq> Null"
  shows "\<exists>b n'. rotateT n = Some (b, n') \<and> sameNodes n' n"
proof -
  obtain k d l r lh rh where n: "n = Node k d l r lh rh" using assms(2) by (cases n) auto
  have self: "sameNodes n n" using assms by (simp add: sameNodes_def)
  show ?thesis
  proof (cases "lh - rh = 2")
    case True
    then have lnn: "getLeft n \<noteq> Null" using assms(1) n by auto
    then obtain ak ad al ar alh arh where l: "l = Node ak ad al ar alh arh"
      using n by (cases l) auto
    show ?thesis
    proof (cases "alh - arh \<ge> 0")
      case T2: True
      from rotateLL_ok[OF assms lnn] show ?thesis using True T2 unfolding n l by auto
    next
      case F2: False
      show ?thesis
      proof (cases "alh - arh = - 1")
        case T3: True
        then have "getRight (getLeft n) \<noteq> Null" using assms(1) unfolding n l by auto
        from rotateLR_ok[OF assms lnn this] show ?thesis using True F2 T3 unfolding n l by auto
      next
        case False
        then show ?thesis using True F2 self unfolding n l by auto
      qed
    qed
  next
    case False
    show ?thesis
    proof (cases "lh - rh = - 2")
      case T1: True
      then have rnn: "getRight n \<noteq> Null" using assms(1) n by auto
      then obtain bk bd bl br blh brh where r: "r = Node bk bd bl br blh brh"
        using n by (cases r) auto
      show ?thesis
      proof (cases "blh - brh = 1")
        case T2: True
        then have "getLeft (getRight n) \<noteq> Null" using assms(1) unfolding n r by auto
        from rotateRL_ok[OF assms rnn this] show ?thesis using False T1 T2 unfolding n r by auto
      next
        case F2: False
        show ?thesis
        proof (cases "blh - brh \<le> 0")
          case True
          from rotateRR_ok[OF assms rnn] show ?thesis using False T1 F2 True unfolding n r by auto
        next
          case F3: False
          then show ?thesis using False T1 F2 self unfolding n r by auto
        qed
      qed
    next
      case F1: False
      then show ?thesis using False self unfolding n by auto
    qed
  qed
qed


lemma bst_sorted: "bst n \<longleftrightarrow> sorted_wrt (<) (map fst (inorder n))"
  by (induction n) (fastforce simp: sorted_wrt_append)+

lemma rotateT_after:
  assumes "after m S N" "m \<noteq> Null"
  shows "\<exists>b n'. rotateT m = Some (b, n') \<and> n' \<noteq> Null \<and> after n' S N"
proof -
  from rotateT_ok[of m] assms obtain b n' where r: "rotateT m = Some (b, n')" "sameNodes n' m"
    unfolding after_def by blast
  then have "after n' S N" using assms(1) unfolding after_def sameNodes_def bst_sorted by simp
  then show ?thesis using r unfolding sameNodes_def by blast
qed

lemma isLeaf_iff: "isLeaf (Node k d l r lh rh) \<longleftrightarrow> l = Null \<and> r = Null"
  by (simp split: node.splits)

lemma isFull_iff: "isFull (Node k d l r lh rh) \<longleftrightarrow> l \<noteq> Null \<and> r \<noteq> Null"
  by (simp split: node.splits)

lemma updateLeftHeight_if:
  "updateLeftHeight (Node k d l r lh rh) = Node k d l r (if l = Null then 0 else getHeight l) rh"
  by (simp split: node.splits)

lemma updateRightHeight_if:
  "updateRightHeight (Node k d l r lh rh) = Node k d l r lh (if r = Null then 0 else getHeight r)"
  by (simp split: node.splits)

lemmas node_ifs = isLeaf_iff isFull_iff updateLeftHeight_if updateRightHeight_if

lemmas node_cases = isLeaf.simps isFull.simps updateLeftHeight.simps updateRightHeight.simps

lemma after_insert_left:
  assumes "cacheNull (Node k d l r lh rh)" "bst (Node k d l r lh rh)" "key < k"
    "key \<notin> fst ` set (inorder (Node k d l r lh rh))"
    "after l' (insert (key, data) (set (inorder l))) (Suc (length (inorder l)))" "l' \<noteq> Null"
    "m = Node k d l' r lh' rh'" "lh' = lh \<and> l \<noteq> Null \<or> lh' = getHeight l'"
    "rh' = rh \<or> rh' = (if r = Null then 0 else getHeight r)"
  shows "after m (insert (key, data) (set (inorder (Node k d l r lh rh))))
           (Suc (length (inorder (Node k d l r lh rh))))"
  using assms getHeight_pos[of l'] getHeight_pos[of r]
  unfolding after_def by (auto split: if_splits)

lemma after_insert_right:
  assumes "cacheNull (Node k d l r lh rh)" "bst (Node k d l r lh rh)" "k < key"
    "key \<notin> fst ` set (inorder (Node k d l r lh rh))"
    "after r' (insert (key, data) (set (inorder r))) (Suc (length (inorder r)))" "r' \<noteq> Null"
    "m = Node k d l r' lh' rh'" "rh' = rh \<and> r \<noteq> Null \<or> rh' = getHeight r'"
    "lh' = lh \<or> lh' = (if l = Null then 0 else getHeight l)"
  shows "after m (insert (key, data) (set (inorder (Node k d l r lh rh))))
           (Suc (length (inorder (Node k d l r lh rh))))"
  using assms getHeight_pos[of r'] getHeight_pos[of l]
  unfolding after_def by (auto split: if_splits)

lemma after_new: "after (Node key data Null Null 0 0) {(key, data)} (Suc 0)"
  by (simp add: after_def)


lemma recursiveInsert_ok:
  assumes "cacheNull cur" "bst cur" "cur \<noteq> Null" "key \<notin> fst ` set (inorder cur)"
  shows "\<exists>b n'. recursiveInsert cur (Node key data Null Null 0 0) = Some (b, n') \<and> n' \<noteq> Null
           \<and> after n' (insert (key, data) (set (inorder cur))) (Suc (length (inorder cur)))"
  using assms
proof (induction cur)
  case Null
  then show ?case by simp
next
  case (Node k d l r lh rh)
  let ?new = "Node key data Null Null 0 0 :: ('a, 'b) node"
  let ?cur = "Node k d l r lh rh"
  let ?S = "insert (key, data) (set (inorder ?cur))"
  let ?N = "Suc (length (inorder ?cur))"
  note p = Node.prems(1,2,4)
  have kk: "key \<noteq> k" using Node.prems(4) by auto
  have new: "after ?new (insert (key, data) (set (inorder (Null :: ('a, 'b) node))))
               (Suc (length (inorder (Null :: ('a, 'b) node))))" "?new \<noteq> Null"
    using after_new[of key data] by simp_all
  have left: "\<exists>b l'. recursiveInsert l ?new = Some (b, l') \<and> l' \<noteq> Null
       \<and> after l' (insert (key, data) (set (inorder l))) (Suc (length (inorder l)))"
    if "l \<noteq> Null" using Node.IH(1) Node.prems that by auto
  have right: "\<exists>b r'. recursiveInsert r ?new = Some (b, r') \<and> r' \<noteq> Null
       \<and> after r' (insert (key, data) (set (inorder r))) (Suc (length (inorder r)))"
    if "r \<noteq> Null" using Node.IH(2) Node.prems that by auto
  have "\<exists>m. recursiveInsert ?cur ?new = rotateT m \<and> m \<noteq> Null \<and> after m ?S ?N"
  proof (cases "key < k")
    case lt0: True
    then have lt: "key < k" "\<not> k < key" by simp_all
    show ?thesis
    proof (cases "l = Null")
      case lN: True
      let ?m = "Node k d ?new r (getHeight ?new) rh"
      have "recursiveInsert ?cur ?new = rotateT ?m"
        using lt lN by (simp add: node_ifs Let_def del: node_cases rotateT.simps)
      moreover have "after ?m ?S ?N"
        using after_insert_left[where k = k and d = d and l = l and r = r and lh = lh and rh = rh
            and key = key and data = data and l' = "?new" and m = "?m" and lh' = "getHeight ?new" and rh' = "rh"]
          p lt(1) new lN
        by simp
      ultimately show ?thesis by blast
    next
      case lN: False
      from left[OF lN] obtain b l' where l': "recursiveInsert l ?new = Some (b, l')"
        "l' \<noteq> Null" "after l' (insert (key, data) (set (inorder l))) (Suc (length (inorder l)))"
        by blast
      let ?lh = "if b then getHeight l' else lh"
      show ?thesis
      proof (cases "r = Null")
        case rN: True
        let ?m = "Node k d l' r (getHeight l') rh"
        have "recursiveInsert ?cur ?new = rotateT ?m"
          using lt lN rN l'(1,2) by (simp add: node_ifs Let_def del: node_cases rotateT.simps)
        moreover have "after ?m ?S ?N"
          using after_insert_left[where k = k and d = d and l = l and r = r and lh = lh and rh = rh
            and key = key and data = data and l' = "l'" and m = "?m" and lh' = "getHeight l'" and rh' = "rh"]
            p lt(1) l'(2,3)
          by simp
        ultimately show ?thesis by blast
      next
        case rN: False
        let ?m = "Node k d l' r ?lh (getHeight r)"
        have "recursiveInsert ?cur ?new = rotateT ?m"
          using lt lN rN l'(1,2) by (simp add: node_ifs Let_def del: node_cases rotateT.simps)
        moreover have "after ?m ?S ?N"
          using after_insert_left[where k = k and d = d and l = l and r = r and lh = lh and rh = rh
            and key = key and data = data and l' = "l'" and m = "?m" and lh' = "?lh" and rh' = "getHeight r"]
            p lt(1) l'(2,3) lN rN
          by simp
        ultimately show ?thesis by blast
      qed
    qed
  next
    case False
    then have gt: "k < key" "\<not> key < k" using kk by simp_all
    show ?thesis
    proof (cases "r = Null")
      case rN: True
      let ?m = "Node k d l ?new lh (getHeight ?new)"
      have "recursiveInsert ?cur ?new = rotateT ?m"
        using gt rN by (simp add: node_ifs Let_def del: node_cases rotateT.simps)
      moreover have "after ?m ?S ?N"
        using after_insert_right[where k = k and d = d and l = l and r = r and lh = lh and rh = rh
            and key = key and data = data and r' = "?new" and m = "?m" and rh' = "getHeight ?new" and lh' = "lh"]
          p gt(1) new rN
        by simp
      ultimately show ?thesis by blast
    next
      case rN: False
      from right[OF rN] obtain b r' where r': "recursiveInsert r ?new = Some (b, r')"
        "r' \<noteq> Null" "after r' (insert (key, data) (set (inorder r))) (Suc (length (inorder r)))"
        by blast
      let ?m = "Node k d l r' lh (getHeight r')"
      have "recursiveInsert ?cur ?new = rotateT ?m"
        using gt rN r'(1,2) by (simp add: node_ifs Let_def del: node_cases rotateT.simps)
      moreover have "after ?m ?S ?N"
        using after_insert_right[where k = k and d = d and l = l and r = r and lh = lh and rh = rh
            and key = key and data = data and r' = "r'" and m = "?m" and rh' = "getHeight r'" and lh' = "lh"]
          p gt(1) r'(2,3)
        by simp
      ultimately show ?thesis by blast
    qed
  qed
  then obtain m where m: "recursiveInsert ?cur ?new = rotateT m" "m \<noteq> Null" "after m ?S ?N"
    by blast
  from rotateT_after[OF m(3) m(2)] show ?case using m(1) by simp
qed


lemma size_storeLeftmost: "size (storeLeftmost key data n) = size n"
  by (induction key data n rule: storeLeftmost.induct) simp_all

lemma inorder_Nil: "inorder n = [] \<longleftrightarrow> n = Null"
  by (cases n) auto

lemma inorder_findLeftmost:
  "n \<noteq> Null \<Longrightarrow> inorder n = (getKey (findLeftmost n), getData (findLeftmost n)) # tl (inorder n)"
  by (induction n rule: findLeftmost.induct) (auto simp: tl_append split: list.splits)

lemma inorder_storeLeftmost:
  "n \<noteq> Null \<Longrightarrow> inorder (storeLeftmost key data n) = (key, data) # tl (inorder n)"
  by (induction key data n rule: storeLeftmost.induct) (auto simp: tl_append split: list.splits)

lemma storeLeftmost_Null: "storeLeftmost key data n = Null \<longleftrightarrow> n = Null"
  by (induction key data n rule: storeLeftmost.induct) auto

lemma cacheNull_storeLeftmost: "cacheNull n \<Longrightarrow> cacheNull (storeLeftmost key data n)"
  by (induction key data n rule: storeLeftmost.induct) (auto simp: storeLeftmost_Null)

lemma bst_storeLeftmost:
  assumes "n \<noteq> Null" "bst n" "\<forall>x \<in> set (inorder n). key < fst x"
  shows "bst (storeLeftmost key data n)"
proof -
  obtain x ys where xs: "inorder n = x # ys" using assms(1) inorder_Nil[of n] by (cases "inorder n") auto
  then show ?thesis using assms inorder_storeLeftmost[OF assms(1), of key data]
    unfolding bst_sorted by auto
qed

lemma after_delete_right:
  assumes "cacheNull (Node k d l r lh rh)" "bst (Node k d l r lh rh)" "k < key"
    "after r' {x \<in> set (inorder r). fst x \<noteq> key} (length (inorder r) - 1)"
    "key \<in> fst ` set (inorder r)"
    "m = Node k d l r' lh rh'" "rh' = (if r' = Null then 0 else getHeight r')"
  shows "after m {x \<in> set (inorder (Node k d l r lh rh)). fst x \<noteq> key}
           (length (inorder (Node k d l r lh rh)) - 1)"
proof -
  have "inorder r \<noteq> []" using assms(5) by auto
  then have "length (inorder r) > 0" by simp
  then show ?thesis
    using assms getHeight_pos[of r'] unfolding after_def by (auto split: if_splits)
qed

lemma after_delete_left:
  assumes "cacheNull (Node k d l r lh rh)" "bst (Node k d l r lh rh)" "key < k"
    "after l' {x \<in> set (inorder l). fst x \<noteq> key} (length (inorder l) - 1)"
    "key \<in> fst ` set (inorder l)"
    "m = Node k d l' r lh' rh" "lh' = (if l' = Null then 0 else getHeight l')"
  shows "after m {x \<in> set (inorder (Node k d l r lh rh)). fst x \<noteq> key}
           (length (inorder (Node k d l r lh rh)) - 1)"
proof -
  have "inorder l \<noteq> []" using assms(5) by auto
  then have "length (inorder l) > 0" by simp
  then show ?thesis
    using assms getHeight_pos[of l'] unfolding after_def by (auto split: if_splits)
qed


lemma after_delete_swap:
  assumes "cacheNull (Node k d l r lh rh)" "bst (Node k d l r lh rh)" "r \<noteq> Null"
    "after r' {x \<in> set (inorder (storeLeftmost k d r)). fst x \<noteq> k}
       (length (inorder (storeLeftmost k d r)) - 1)"
    "m = Node (getKey (findLeftmost r)) (getData (findLeftmost r)) l r' lh rh'"
    "rh' = (if r' = Null then 0 else getHeight r')"
  shows "after m {x \<in> set (inorder (Node k d l r lh rh)). fst x \<noteq> k}
           (length (inorder (Node k d l r lh rh)) - 1)"
proof -
  let ?sk = "getKey (findLeftmost r)" and ?sd = "getData (findLeftmost r)"
  define ys where "ys = tl (inorder r)"
  have r: "inorder r = (?sk, ?sd) # ys" using inorder_findLeftmost[OF assms(3)] ys_def by simp
  have r0: "inorder (storeLeftmost k d r) = (k, d) # ys"
    using inorder_storeLeftmost[OF assms(3)] ys_def by simp
  have srt: "sorted_wrt (<) (map fst (inorder l) @ k # ?sk # map fst ys)"
    using assms(2) r unfolding bst_sorted by simp
  then have ord: "\<forall>x \<in> set (inorder l). fst x < k" "k < ?sk" "\<forall>y \<in> set ys. ?sk < fst y"
    "\<forall>y \<in> set ys. k < fst y" "\<forall>x \<in> set (inorder l). fst x < ?sk"
    by (auto simp: sorted_wrt_append)
  have "{x \<in> set ((k, d) # ys). fst x \<noteq> k} = set ys" using ord(4) by auto
  then have r': "cacheNull r'" "bst r'" "set (inorder r') = set ys" "length (inorder r') = length ys"
    using assms(4) unfolding r0 after_def by simp_all
  have set_eq: "{x \<in> set (inorder (Node k d l r lh rh)). fst x \<noteq> k}
      = set (inorder l) \<union> {(?sk, ?sd)} \<union> set ys"
    using ord r by auto
  have "cacheNull m" using assms(1,5,6) r'(1) getHeight_pos[of r'] by (auto split: if_splits)
  moreover have "bst m" using assms(2,5) r'(2,3) ord by auto
  moreover have "set (inorder m) = set (inorder l) \<union> {(?sk, ?sd)} \<union> set ys"
    using assms(5) r'(3) by auto
  moreover have "length (inorder m) = length (inorder (Node k d l r lh rh)) - 1"
    using assms(5) r'(4) r by simp
  ultimately show ?thesis unfolding after_def set_eq by simp
qed

lemma recursiveDelete_ok:
  assumes "cacheNull cur" "bst cur" "key \<in> fst ` set (inorder cur)"
  shows "\<exists>b n'. recursiveDelete cur (\<lambda>_. key) = Some (b, n') \<and> (n' = Null \<longrightarrow> b)
           \<and> after n' {x \<in> set (inorder cur). fst x \<noteq> key} (length (inorder cur) - 1)"
  using assms
proof (induction "size cur" arbitrary: cur rule: less_induct)
  case less
  obtain k d l r lh rh where cur: "cur = Node k d l r lh rh"
    using less.prems(3) by (cases cur) auto
  let ?cur = "Node k d l r lh rh"
  let ?S = "{x \<in> set (inorder ?cur). fst x \<noteq> key}"
  let ?N = "length (inorder ?cur) - 1"
  note p = less.prems[unfolded cur]
  have IH: "\<exists>b n'. recursiveDelete c (\<lambda>_. key) = Some (b, n') \<and> (n' = Null \<longrightarrow> b)
           \<and> after n' {x \<in> set (inorder c). fst x \<noteq> key} (length (inorder c) - 1)"
    if "size c < size ?cur" "cacheNull c" "bst c" "key \<in> fst ` set (inorder c)"
    for c :: "('a, 'b) node"
    using less.hyps[of c] that cur by simp
  have fin: ?case if "recursiveDelete ?cur (\<lambda>_. key) = rotateT m" "m \<noteq> Null" "after m ?S ?N" for m
    using rotateT_after[OF that(3,2)] that(1) unfolding cur by auto
  have fin2: ?case if "recursiveDelete ?cur (\<lambda>_. key) = Some (True, n)" "after n ?S ?N" for n
    using that unfolding cur by blast
  show ?case
  proof (cases "k = key")
    case eq: True
    show ?thesis
    proof (cases "l = Null")
      case lN: True
      show ?thesis
      proof (cases "r = Null")
        case rN: True
        have "recursiveDelete ?cur (\<lambda>_. key) = Some (True, Null)"
          using eq lN rN by (simp add: node_ifs Let_def del: node_cases rotateT.simps)
        moreover have "after Null ?S ?N" using p eq lN rN by (auto simp: after_def)
        ultimately show ?thesis using fin2 by blast
      next
        case rN: False
        have "recursiveDelete ?cur (\<lambda>_. key) = Some (True, r)"
          using eq lN rN by (simp add: node_ifs Let_def del: node_cases rotateT.simps)
        moreover have "after r ?S ?N" using p eq lN by (auto simp: after_def)
        ultimately show ?thesis using fin2 by blast
      qed
    next
      case lN: False
      show ?thesis
      proof (cases "r = Null")
        case rN: True
        have "recursiveDelete ?cur (\<lambda>_. key) = Some (True, l)"
          using eq lN rN by (simp add: node_ifs Let_def del: node_cases rotateT.simps)
        moreover have "after l ?S ?N" using p eq rN by (auto simp: after_def)
        ultimately show ?thesis using fin2 by blast
      next
        case rN: False
        let ?r0 = "storeLeftmost k d r"
        have "key \<in> fst ` set (inorder ?r0)"
          using inorder_storeLeftmost[OF rN, of k d] eq by simp
        from IH[of ?r0, OF _ _ _ this] obtain b r' where
          r': "recursiveDelete ?r0 (\<lambda>_. key) = Some (b, r')" "r' = Null \<longrightarrow> b"
          "after r' {x \<in> set (inorder ?r0). fst x \<noteq> key} (length (inorder ?r0) - 1)"
          using p(1,2) rN by (auto simp: size_storeLeftmost cacheNull_storeLeftmost bst_storeLeftmost)
        let ?m = "Node (getKey (findLeftmost r)) (getData (findLeftmost r)) l r' lh
                    (if r' = Null then 0 else getHeight r')"
        have "recursiveDelete ?cur (\<lambda>_. key) = rotateT ?m"
          using eq lN rN r'(1,2) by (auto simp add: node_ifs Let_def simp del: node_cases rotateT.simps)
        moreover have "after ?m ?S ?N"
          using after_delete_swap[OF p(1,2) rN, of r' ?m] r'(3) eq by simp
        ultimately show ?thesis using fin by blast
      qed
    qed
  next
    case neq: False
    show ?thesis
    proof (cases "key > k")
      case gt: True
      have kin: "key \<in> fst ` set (inorder r)" using p(2,3) gt by auto
      then have rN: "r \<noteq> Null" by auto
      from IH[of r, OF _ _ _ kin] obtain b r' where
        r': "recursiveDelete r (\<lambda>_. key) = Some (b, r')" "r' = Null \<longrightarrow> b"
        "after r' {x \<in> set (inorder r). fst x \<noteq> key} (length (inorder r) - 1)"
        using p(1,2) by auto
      let ?m = "Node k d l r' lh (if r' = Null then 0 else getHeight r')"
      have "recursiveDelete ?cur (\<lambda>_. key) = rotateT ?m"
        using neq gt r'(1,2) by (auto simp add: node_ifs Let_def simp del: node_cases rotateT.simps)
      moreover have "after ?m ?S ?N"
        using after_delete_right[OF p(1,2) gt r'(3) kin, of ?m] by simp
      ultimately show ?thesis using fin by blast
    next
      case False
      then have lt: "key < k" "\<not> k < key" using neq by auto
      have kin: "key \<in> fst ` set (inorder l)" using p(2,3) lt by auto
      then have lN: "l \<noteq> Null" by auto
      from IH[of l, OF _ _ _ kin] obtain b l' where
        l': "recursiveDelete l (\<lambda>_. key) = Some (b, l')" "l' = Null \<longrightarrow> b"
        "after l' {x \<in> set (inorder l). fst x \<noteq> key} (length (inorder l) - 1)"
        using p(1,2) by auto
      let ?m = "Node k d l' r (if l' = Null then 0 else getHeight l') rh"
      have "recursiveDelete ?cur (\<lambda>_. key) = rotateT ?m"
        using neq lt l'(1,2) by (auto simp add: node_ifs Let_def simp del: node_cases rotateT.simps)
      moreover have "after ?m ?S ?N"
        using after_delete_left[OF p(1,2) lt(1) l'(3) kin, of ?m] by simp
      ultimately show ?thesis using fin by blast
    qed
  qed
qed

subsection \<open>The public operations of the tree\<close>

lemma recursiveFind_None:
  "bst n \<Longrightarrow> recursiveFind n key = None \<longleftrightarrow> key \<notin> fst ` set (inorder n)"
  by (induction n) (auto simp: rev_image_eqI)

lemma recursiveFind_Some:
  "recursiveFind n key = Some p \<Longrightarrow>
     nodeAt n p \<noteq> Null \<and> getKey (nodeAt n p) = key
     \<and> (getKey (nodeAt n p), getData (nodeAt n p)) \<in> set (inorder n)"
  by (induction n arbitrary: p) (auto split: if_splits)

lemma treeInv_Empty: "treeInv t \<Longrightarrow> Empty t \<longleftrightarrow> rootT t = Null"
  by (auto simp: treeInv_def Empty_def getSize_def inorder_Nil)

lemma Insert_present:
  assumes "treeInv t" "key \<in> fst ` set (inorder (rootT t))"
  shows "Insert key data t = Some (Inl AVLTreeKeyAlreadyExistsException, t)"
proof -
  have "rootT t \<noteq> Null" using assms(2) by auto
  moreover have "recursiveFind (rootT t) key \<noteq> None"
    using recursiveFind_None[of "rootT t" key] assms unfolding treeInv_def by simp
  ultimately show ?thesis using treeInv_Empty[OF assms(1)]
    by (auto simp: Insert_def Find_def split: option.splits)
qed

lemma Insert_absent:
  assumes "treeInv t" "key \<notin> fst ` set (inorder (rootT t))"
  shows "\<exists>t'. Insert key data t = Some (Inr (), t') \<and> treeInv t'
           \<and> set (inorder (rootT t')) = insert (key, data) (set (inorder (rootT t)))
           \<and> sizeT t' = sizeT t + 1"
proof (cases "rootT t = Null")
  case True
  then show ?thesis using assms treeInv_Empty[OF assms(1)]
    by (simp add: Insert_def treeInv_def)
next
  case False
  have nf: "recursiveFind (rootT t) key = None"
    using recursiveFind_None[of "rootT t" key] assms unfolding treeInv_def by simp
  from recursiveInsert_ok[of "rootT t" key data] assms False
  obtain b n' where n': "recursiveInsert (rootT t) (Node key data Null Null 0 0) = Some (b, n')"
    "after n' (insert (key, data) (set (inorder (rootT t)))) (Suc (length (inorder (rootT t))))"
    unfolding treeInv_def by blast
  show ?thesis using False nf n' assms(1) treeInv_Empty[OF assms(1)]
    by (simp add: Insert_def Find_def treeInv_def after_def)
qed

lemma Delete_absent:
  assumes "treeInv t" "key (rootT t) \<notin> fst ` set (inorder (rootT t))"
  shows "Delete key t = Some (Inl AVLTreeKeyNotFoundException, t)"
  using recursiveFind_None[of "rootT t" "key (rootT t)"] assms unfolding treeInv_def
  by (simp add: Delete_def Find_def)

lemma Delete_present:
  assumes "treeInv t" "key \<in> fst ` set (inorder (rootT t))"
  shows "\<exists>t'. Delete (byValue key) t = Some (Inr (), t') \<and> treeInv t'
           \<and> set (inorder (rootT t')) = {x \<in> set (inorder (rootT t)). fst x \<noteq> key}
           \<and> sizeT t' = sizeT t - 1"
proof -
  have f: "recursiveFind (rootT t) key \<noteq> None"
    using recursiveFind_None[of "rootT t" key] assms unfolding treeInv_def by simp
  from recursiveDelete_ok[of "rootT t" key] assms
  obtain b n' where n': "recursiveDelete (rootT t) (\<lambda>_. key) = Some (b, n')"
    "after n' {x \<in> set (inorder (rootT t)). fst x \<noteq> key} (length (inorder (rootT t)) - 1)"
    unfolding treeInv_def by blast
  obtain m where m: "length (inorder (rootT t)) = Suc m"
    using assms(2) by (cases "inorder (rootT t)") auto
  have "n' = Null" if "m = 0"
    using n'(2) that m inorder_Nil[of n'] unfolding after_def by simp
  then show ?thesis using f n' assms(1) m
    by (auto simp: Delete_def byValue_def Find_def treeInv_def after_def Let_def
          split: option.splits)
qed

lemma treeInv_init: "treeInv AVLTree_init"
  by (simp add: treeInv_def AVLTree_init_def)

lemma applyOp_treeInv:
  assumes "treeInv t"
  shows "\<exists>t'. applyOp x t = Some t' \<and> treeInv t'"
proof (cases x)
  case (InsertOp key data)
  show ?thesis
  proof (cases "key \<in> fst ` set (inorder (rootT t))")
    case True
    then show ?thesis using Insert_present[OF assms True, of data] assms InsertOp by simp
  next
    case False
    then show ?thesis using Insert_absent[OF assms False, of data] InsertOp by auto
  qed
next
  case (DeleteOp key)
  show ?thesis
  proof (cases "key \<in> fst ` set (inorder (rootT t))")
    case True
    then show ?thesis using Delete_present[OF assms True] DeleteOp by auto
  next
    case False
    then show ?thesis using Delete_absent[of t "byValue key"] assms DeleteOp
      by (simp add: byValue_def)
  qed
qed

lemma applyOps_treeInv:
  "treeInv t \<Longrightarrow> \<exists>t'. applyOps xs t = Some t' \<and> treeInv t'"
proof (induction xs arbitrary: t)
  case Nil
  then show ?case by simp
next
  case (Cons x xs)
  from applyOp_treeInv[OF Cons.prems, of x] obtain t1 where "applyOp x t = Some t1" "treeInv t1"
    by blast
  then show ?case using Cons.IH[of t1] by simp
qed

text \<open>
  With the key passed by value, every sequence of \<open>Insert\<close> and \<open>Delete\<close>
  operations on the empty tree runs without undefined behaviour and leaves a tree whose
  in-order traversal has strictly ascending keys and whose \<open>getSize\<close> is the length
  of that traversal.
\<close>

lemma applyOps_sorted_and_size:
  "\<exists>t. applyOps ops AVLTree_init = Some t
       \<and> sorted_wrt (<) (map fst (inorder (rootT t)))
       \<and> getSize t = int (length (inorder (rootT t)))"
  using applyOps_treeInv[OF treeInv_init, of ops]
  by (auto simp: treeInv_def bst_sorted getSize_def)

text \<open>
  C3 (the code departs from the claim). After every operation the in-order traversal
  should have strictly ascending keys. \<open>Delete\<close> takes its key by reference
  (\<open>const KeyType&\<close>) and \<open>recursiveDelete\<close> reads it again at every node,
  also after \<open>swap\<close> has exchanged the payloads of two nodes. In a tree of
  \<open>int\<close> keys and \<open>int\<close> data built by inserting (50, 60), (30, 0), (70, 0),
  (55, 50), (80, 0), (60, 0), the expression \<open>*Find(55)\<close> is a reference to the data
  field of node 55, which holds 50. \<open>Delete(*Find(55))\<close> finds the key 50 at the
  root, a node with two children, and swaps its payload with the leftmost node of the
  right subtree, which is node 55: the referenced field now holds 60, so the walk goes on
  looking for 60 and unlinks the leaf 60. The key 50 stays in the tree, to the right of
  the new root 55: the in-order keys are 30, 55, 50, 70, 80, and \<open>Find(50)\<close> then
  misses a key that is stored. With the key 50 passed by value the same \<open>Delete\<close>
  leaves 30, 55, 60, 70, 80.
\<close>

theorem C3_delete_by_reference_breaks_order:
  "applyOps [InsertOp 50 60, InsertOp 30 0, InsertOp 70 0, InsertOp 55 50, InsertOp 80 0,
             InsertOp 60 0] (AVLTree_init :: (int, int) AVLTree) =
     Some \<lparr>rootT =
        Node 50 60 (Node 30 0 Null Null 0 0)
          (Node 70 0 (Node 55 50 Null (Node 60 0 Null Null 0 0) 0 1)
             (Node 80 0 Null Null 0 0) 1 1) 1 2,
      minimal = Some [L], sizeT = 6\<rparr>
   \<and> Find 55 (\<lparr>rootT =
        Node 50 60 (Node 30 0 Null Null 0 0)
          (Node 70 0 (Node 55 50 Null (Node 60 0 Null Null 0 0) 0 1)
             (Node 80 0 Null Null 0 0) 1 1) 1 2,
      minimal = Some [L], sizeT = 6\<rparr> :: (int, int) AVLTree) = Inr [R, L]
   \<and> deref (\<lparr>rootT =
        Node 50 60 (Node 30 0 Null Null 0 0)
          (Node 70 0 (Node 55 50 Null (Node 60 0 Null Null 0 0) 0 1)
             (Node 80 0 Null Null 0 0) 1 1) 1 2,
      minimal = Some [L], sizeT = 6\<rparr> :: (int, int) AVLTree) (Some [R, L]) = Inr 50
   \<and> Delete (payloadOf [R, L]) (\<lparr>rootT =
        Node 50 60 (Node 30 0 Null Null 0 0)
          (Node 70 0 (Node 55 50 Null (Node 60 0 Null Null 0 0) 0 1)
             (Node 80 0 Null Null 0 0) 1 1) 1 2,
      minimal = Some [L], sizeT = 6\<rparr> :: (int, int) AVLTree) =
     Some (Inr (), \<lparr>rootT =
        Node 55 50 (Node 30 0 Null Null 0 0)
          (Node 70 0 (Node 50 60 Null Null 0 0) (Node 80 0 Null Null 0 0) 1 1) 1 2,
      minimal = Some [L], sizeT = 5\<rparr>)
   \<and> map fst (inorder (rootT (\<lparr>rootT =
        Node 55 50 (Node 30 0 Null Null 0 0)
          (Node 70 0 (Node 50 60 Null Null 0 0) (Node 80 0 Null Null 0 0) 1 1) 1 2,
      minimal = Some [L], sizeT = 5\<rparr> :: (int, int) AVLTree))) = [30, 55, 50, 70, 80]
   \<and> \<not> sorted_wrt (<) (map fst (inorder (rootT (\<lparr>rootT =
        Node 55 50 (Node 30 0 Null Null 0 0)
          (Node 70 0 (Node 50 60 Null Null 0 0) (Node 80 0 Null Null 0 0) 1 1) 1 2,
      minimal = Some [L], sizeT = 5\<rparr> :: (int, int) AVLTree))))
   \<and> Find 50 (\<lparr>rootT =
        Node 55 50 (Node 30 0 Null Null 0 0)
          (Node 70 0 (Node 50 60 Null Null 0 0) (Node 80 0 Null Null 0 0) 1 1) 1 2,
      minimal = Some [L], sizeT = 5\<rparr> :: (int, int) AVLTree) = Inl AVLTreeKeyNotFoundException
   \<and> map fst (inorder (rootT (snd (the (Delete (byValue 50)
         (\<lparr>rootT =
        Node 50 60 (Node 30 0 Null Null 0 0)
          (Node 70 0 (Node 55 50 Null (Node 60 0 Null Null 0 0) 0 1)
             (Node 80 0 Null Null 0 0) 1 1) 1 2,
      minimal = Some [L], sizeT = 6\<rparr> :: (int, int) AVLTree)))))) = [30, 55, 60, 70, 80]"
  by code_simp

subsection \<open>Bulk rebuild\<close>























subsection \<open>Buckets, rehashing and Resize\<close>

lemma hashFunction_mod: "0 < m_size m \<Longrightarrow> hashFunction m key = key mod m_size m"
proof -
  assume s: "0 < m_size m"
  show ?thesis
  proof (cases "0 \<le> key")
    case True
    then show ?thesis using s by (simp add: hashFunction_def signed_modulo_int_def sgn_if)
  next
    case False
    then have neg: "key < 0" by simp
    show ?thesis
    proof (cases "(- key) mod m_size m = 0")
      case True
      then have "key mod m_size m = 0" by (metis mod_minus_eq mod_0 add.inverse_inverse add.inverse_neutral)
      then show ?thesis using s neg True
        by (simp add: hashFunction_def signed_modulo_int_def sgn_if)
    next
      case F: False
      have pos: "0 < (- key) mod m_size m" using F s pos_mod_sign[of "m_size m" "- key"] by linarith
      have "key mod m_size m = m_size m - (- key) mod m_size m"
        using zmod_zminus1_eq_if[of "- key" "m_size m"] F by simp
      then show ?thesis using s neg pos
        by (simp add: hashFunction_def signed_modulo_int_def sgn_if Let_def)
    qed
  qed
qed

lemma hashFunction_size: "m_size m' = m_size m \<Longrightarrow> hashFunction m' key = hashFunction m key"
  by (simp add: hashFunction_def Let_def)

lemma hash_range: "0 < m_size m \<Longrightarrow> 0 \<le> hashFunction m key \<and> hashFunction m key < m_size m"
  by (simp add: hashFunction_mod)

lemma hash_index: "mapWf m \<Longrightarrow> nat (hashFunction m key) < length (entries m)"
  using hash_range[of m key] by (auto simp: mapWf_def)

lemma entryAt_hash:
  "mapWf m \<Longrightarrow> entryAt m (hashFunction m key) = Some (entries m ! nat (hashFunction m key))"
  using hash_range[of m key] hash_index[of m key] by (auto simp: entryAt_def mapWf_def)

lemma mapPairs_bucket:
  assumes "mapWf m"
  shows "key \<in> fst ` mapPairs m \<longleftrightarrow>
         key \<in> fst ` set (inorder (rootT (entries m ! nat (hashFunction m key))))"
proof
  assume "key \<in> fst ` mapPairs m"
  then obtain v t where t: "t \<in> set (entries m)" "(key, v) \<in> set (inorder (rootT t))"
    by (auto simp: mapPairs_def)
  then obtain i where i: "i < length (entries m)" "entries m ! i = t"
    by (auto simp: in_set_conv_nth)
  then have "hashFunction m key = int i" using assms t(2) unfolding mapWf_def by force
  then show "key \<in> fst ` set (inorder (rootT (entries m ! nat (hashFunction m key))))"
    using i t(2) by force
next
  assume "key \<in> fst ` set (inorder (rootT (entries m ! nat (hashFunction m key))))"
  then obtain v where "(key, v) \<in> set (inorder (rootT (entries m ! nat (hashFunction m key))))"
    by auto
  moreover have "entries m ! nat (hashFunction m key) \<in> set (entries m)"
    using hash_index[OF assms, of key] by simp
  ultimately have "(key, v) \<in> mapPairs m" unfolding mapPairs_def by blast
  then show "key \<in> fst ` mapPairs m" by force
qed

lemma Find_iff: "treeInv t \<Longrightarrow> (\<exists>p. Find key t = Inr p) \<longleftrightarrow> key \<in> fst ` set (inorder (rootT t))"
  using recursiveFind_None[of "rootT t" key]
  by (auto simp: Find_def treeInv_def split: option.splits)

lemma Contains_iff:
  assumes "mapWf m"
  shows "HashMap_Contains m key = Some (key \<in> fst ` mapPairs m)"
proof -
  let ?t = "entries m ! nat (hashFunction m key)"
  have ti: "treeInv ?t" using assms hash_index[OF assms, of key] by (simp add: mapWf_def)
  show ?thesis
    using entryAt_hash[OF assms, of key] Find_iff[OF ti, of key] mapPairs_bucket[OF assms, of key]
    by (auto simp: HashMap_Contains_def split: sum.splits)
qed


lemma sum_list_update_int:
  "i < length xs \<Longrightarrow> sum_list (xs[i := y]) = sum_list xs - xs ! i + (y::int)"
  by (induction xs arbitrary: i) (auto split: nat.splits)

lemma mapPairs_nth:
  "mapPairs m = (\<Union>j \<in> {..<length (entries m)}. set (inorder (rootT (entries m ! j))))"
proof -
  have "set (entries m) = (\<lambda>j. entries m ! j) ` {..<length (entries m)}"
    by (auto simp: in_set_conv_nth)
  then show ?thesis unfolding mapPairs_def by simp
qed

lemma mapPairs_update:
  assumes "i < length (entries m)"
  shows "mapPairs (m\<lparr>entries := (entries m)[i := t'], m_count := c\<rparr>) =
         (\<Union>j \<in> {..<length (entries m)} - {i}. set (inorder (rootT (entries m ! j))))
         \<union> set (inorder (rootT t'))"
proof -
  have "(\<Union>j \<in> {..<length (entries m)}. set (inorder (rootT ((entries m)[i := t'] ! j)))) =
        (\<Union>j \<in> {..<length (entries m)} - {i}. set (inorder (rootT (entries m ! j))))
         \<union> set (inorder (rootT t'))"
    using assms by (auto simp: nth_list_update split: if_splits)
  then show ?thesis unfolding mapPairs_nth by simp
qed

lemma mapWf_update:
  assumes "mapWf m" "i = nat (hashFunction m key)" "treeInv t'"
    "\<forall>x \<in> set (inorder (rootT t')). hashFunction m (fst x) = int i"
    "c = m_count m - sizeT (entries m ! i) + sizeT t'"
  shows "mapWf (m\<lparr>entries := (entries m)[i := t'], m_count := c\<rparr>)"
proof -
  let ?m' = "m\<lparr>entries := (entries m)[i := t'], m_count := c\<rparr>"
  have i: "i < length (entries m)" using hash_index[OF assms(1), of key] assms(2) by simp
  have h: "hashFunction ?m' k = hashFunction m k" for k by (simp add: hashFunction_def Let_def)
  show ?thesis
    using assms i sum_list_update_int[of i "map sizeT (entries m)" "sizeT t'"]
    unfolding mapWf_def h
    by (auto simp: nth_list_update map_update)
qed

lemma bucket_insert:
  assumes "mapWf m" "key \<notin> fst ` mapPairs m"
  shows "\<exists>t'. Insert key p (entries m ! nat (hashFunction m key)) = Some (Inr (), t')
      \<and> mapWf (m\<lparr>entries := (entries m)[nat (hashFunction m key) := t'],
                   m_count := m_count m + 1\<rparr>)
      \<and> mapPairs (m\<lparr>entries := (entries m)[nat (hashFunction m key) := t'],
                   m_count := m_count m + 1\<rparr>) = insert (key, p) (mapPairs m)"
proof -
  let ?i = "nat (hashFunction m key)"
  let ?t = "entries m ! ?i"
  have i: "?i < length (entries m)" using hash_index[OF assms(1)] .
  have ti: "treeInv ?t" and hs: "\<forall>x \<in> set (inorder (rootT ?t)). hashFunction m (fst x) = int ?i"
    using assms(1) i unfolding mapWf_def by blast+
  have "key \<notin> fst ` set (inorder (rootT ?t))" using mapPairs_bucket[OF assms(1), of key] assms(2) by simp
  from Insert_absent[OF ti this, of p] obtain t' where t': "Insert key p ?t = Some (Inr (), t')"
    "treeInv t'" "set (inorder (rootT t')) = insert (key, p) (set (inorder (rootT ?t)))"
    "sizeT t' = sizeT ?t + 1" by blast
  have hk: "hashFunction m key = int ?i" using hash_range[of m key] assms(1) by (simp add: mapWf_def)
  have wf: "mapWf (m\<lparr>entries := (entries m)[?i := t'], m_count := m_count m + 1\<rparr>)"
    by (rule mapWf_update[OF assms(1) refl t'(2)]) (use t'(3,4) hs hk in auto)
  have "mapPairs (m\<lparr>entries := (entries m)[?i := t'], m_count := m_count m + 1\<rparr>)
        = insert (key, p) (mapPairs m)"
    unfolding mapPairs_update[OF i] mapPairs_nth[of m] t'(3) using i by auto
  then show ?thesis using t'(1) wf by blast
qed

lemma bucket_delete:
  assumes "mapWf m" "key \<in> fst ` mapPairs m"
  shows "\<exists>t'. Delete (byValue key) (entries m ! nat (hashFunction m key)) = Some (Inr (), t')
      \<and> mapWf (m\<lparr>entries := (entries m)[nat (hashFunction m key) := t'],
                   m_count := m_count m - 1\<rparr>)
      \<and> mapPairs (m\<lparr>entries := (entries m)[nat (hashFunction m key) := t'],
                   m_count := m_count m - 1\<rparr>) = {x \<in> mapPairs m. fst x \<noteq> key}"
proof -
  let ?i = "nat (hashFunction m key)"
  let ?t = "entries m ! ?i"
  have i: "?i < length (entries m)" using hash_index[OF assms(1)] .
  have ti: "treeInv ?t" and hs: "\<forall>x \<in> set (inorder (rootT ?t)). hashFunction m (fst x) = int ?i"
    using assms(1) i unfolding mapWf_def by blast+
  have "key \<in> fst ` set (inorder (rootT ?t))" using mapPairs_bucket[OF assms(1), of key] assms(2) by simp
  from Delete_present[OF ti this] obtain t' where t': "Delete (byValue key) ?t = Some (Inr (), t')"
    "treeInv t'" "set (inorder (rootT t')) = {x \<in> set (inorder (rootT ?t)). fst x \<noteq> key}"
    "sizeT t' = sizeT ?t - 1" by blast
  have hk: "hashFunction m key = int ?i" using hash_range[of m key] assms(1) by (simp add: mapWf_def)
  have wf: "mapWf (m\<lparr>entries := (entries m)[?i := t'], m_count := m_count m - 1\<rparr>)"
    by (rule mapWf_update[OF assms(1) refl t'(2)]) (use t'(3,4) hs hk in auto)
  have other: "fst x \<noteq> key" if "j < length (entries m)" "j \<noteq> ?i"
    "x \<in> set (inorder (rootT (entries m ! j)))" for j x
  proof
    assume "fst x = key"
    then have "hashFunction m key = int j" using assms(1) that(1,3) unfolding mapWf_def by blast
    then show False using hk that(2) by simp
  qed
  have "mapPairs (m\<lparr>entries := (entries m)[?i := t'], m_count := m_count m - 1\<rparr>)
        = {x \<in> mapPairs m. fst x \<noteq> key}"
    unfolding mapPairs_update[OF i] mapPairs_nth[of m] t'(3) using i other by auto
  then show ?thesis using t'(1) wf by blast
qed


lemma reinsert_ok:
  assumes "mapWf m" "distinct (map fst ps)" "fst ` set ps \<inter> fst ` mapPairs m = {}"
  shows "\<exists>m'. reinsert ps m = Some (Inr (), m') \<and> mapWf m' \<and> mapPairs m' = mapPairs m \<union> set ps
           \<and> m_size m' = m_size m \<and> m_count m' = m_count m + int (length ps)"
  using assms
proof (induction ps arbitrary: m)
  case Nil
  then show ?case by simp
next
  case (Cons kp ps)
  obtain key p where kp: "kp = (key, p)" by (cases kp)
  have absent: "key \<notin> fst ` mapPairs m" using Cons.prems(3) kp by auto
  let ?i = "nat (hashFunction m key)"
  from bucket_insert[OF Cons.prems(1) absent, of p] obtain t' where
    t': "Insert key p (entries m ! ?i) = Some (Inr (), t')"
    and wf: "mapWf (m\<lparr>entries := (entries m)[?i := t'], m_count := m_count m + 1\<rparr>)"
    and pairs: "mapPairs (m\<lparr>entries := (entries m)[?i := t'], m_count := m_count m + 1\<rparr>)
                = insert (key, p) (mapPairs m)"
    by blast
  let ?m1 = "m\<lparr>entries := (entries m)[?i := t'], m_count := m_count m + 1\<rparr>"
  have step: "reinsert (kp # ps) m = reinsert ps ?m1"
    using entryAt_hash[OF Cons.prems(1), of key] t' kp by (simp add: Let_def)
  have d: "distinct (map fst ps)" using Cons.prems(2) by simp
  have disj: "fst ` set ps \<inter> fst ` mapPairs ?m1 = {}"
    unfolding pairs using Cons.prems(2,3) kp by auto
  from Cons.IH[OF wf d disj] obtain m' where m': "reinsert ps ?m1 = Some (Inr (), m')" "mapWf m'"
    "mapPairs m' = mapPairs ?m1 \<union> set ps" "m_size m' = m_size ?m1"
    "m_count m' = m_count ?m1 + int (length ps)" by blast
  show ?case using step m' pairs kp by auto
qed

lemma treeInv_extract:
  assumes "treeInv old"
  shows "take (nat (getSize old)) (zip (inOrderExtractKeys old) (inOrderExtractData old))
           = inorder (rootT old)"
    and "\<not> (getSize old < 0 \<or> nat (getSize old) > length (inOrderExtractKeys old)
             \<or> nat (getSize old) > length (inOrderExtractData old))"
    and "distinct (map fst (inorder (rootT old)))"
proof -
  have "zip (map fst (inorder (rootT old))) (map snd (inorder (rootT old))) = inorder (rootT old)"
    by (simp add: zip_map_fst_snd)
  then show "take (nat (getSize old)) (zip (inOrderExtractKeys old) (inOrderExtractData old))
           = inorder (rootT old)"
    using assms by (simp add: treeInv_def getSize_def inOrderExtractKeys_def inOrderExtractData_def)
  show "\<not> (getSize old < 0 \<or> nat (getSize old) > length (inOrderExtractKeys old)
             \<or> nat (getSize old) > length (inOrderExtractData old))"
    using assms by (simp add: treeInv_def getSize_def inOrderExtractKeys_def inOrderExtractData_def)
  have "sorted_wrt (<) (map fst (inorder (rootT old)))"
    using assms by (simp add: treeInv_def bst_sorted)
  then show "distinct (map fst (inorder (rootT old)))"
    using strict_sorted_iff by blast
qed

lemma rehash_ok:
  assumes "mapWf m" "\<forall>t \<in> set ts. treeInv t"
    "\<forall>i < length ts. \<forall>x \<in> set (inorder (rootT (ts ! i))). g (fst x) = i0 + i"
    "\<forall>x \<in> mapPairs m. g (fst x) < (i0::nat)"
  shows "\<exists>m'. rehash ts m = Some (Inr (), m') \<and> mapWf m'
           \<and> mapPairs m' = mapPairs m \<union> (\<Union>t \<in> set ts. set (inorder (rootT t)))
           \<and> m_size m' = m_size m \<and> m_count m' = m_count m + sum_list (map sizeT ts)"
  using assms
proof (induction ts arbitrary: m i0)
  case Nil
  then show ?case by simp
next
  case (Cons old olds)
  have ti: "treeInv old" using Cons.prems(2) by simp
  note ex = treeInv_extract[OF ti]
  have g0: "\<forall>x \<in> set (inorder (rootT old)). g (fst x) = i0" using Cons.prems(3) by force
  have disj: "fst ` set (inorder (rootT old)) \<inter> fst ` mapPairs m = {}"
    using g0 Cons.prems(4) by fastforce
  from reinsert_ok[OF Cons.prems(1) ex(3) disj] obtain m1 where
    m1: "reinsert (inorder (rootT old)) m = Some (Inr (), m1)" "mapWf m1"
    "mapPairs m1 = mapPairs m \<union> set (inorder (rootT old))" "m_size m1 = m_size m"
    "m_count m1 = m_count m + int (length (inorder (rootT old)))" by blast
  have step: "rehash (old # olds) m = rehash olds m1"
    using ex(1,2) m1(1) by (simp add: Let_def)
  have a2: "\<forall>t \<in> set olds. treeInv t" using Cons.prems(2) by simp
  have a3: "\<forall>i < length olds. \<forall>x \<in> set (inorder (rootT (olds ! i))). g (fst x) = Suc i0 + i"
    using Cons.prems(3) by force
  have a4: "\<forall>x \<in> mapPairs m1. g (fst x) < Suc i0"
    unfolding m1(3) using g0 Cons.prems(4) by fastforce
  from Cons.IH[OF m1(2) a2 a3 a4] obtain m' where m': "rehash olds m1 = Some (Inr (), m')"
    "mapWf m'" "mapPairs m' = mapPairs m1 \<union> (\<Union>t \<in> set olds. set (inorder (rootT t)))"
    "m_size m' = m_size m1" "m_count m' = m_count m1 + sum_list (map sizeT olds)" by blast
  have "sizeT old = int (length (inorder (rootT old)))" using ti by (simp add: treeInv_def)
  then show ?case using step m' m1 by auto
qed

lemma Resize_ok:
  assumes "mapWf m" "increase \<or> 2 \<le> m_size m"
  shows "\<exists>m'. Resize increase m = Some (Inr (), m') \<and> mapWf m' \<and> mapPairs m' = mapPairs m
           \<and> m_count m' = m_count m
           \<and> m_size m' = (if \<not> increase \<and> m_size m = INITIAL_SIZE then m_size m
                           else if increase then m_size m * 2 else m_size m div 2)"
proof (cases "\<not> increase \<and> m_size m = INITIAL_SIZE")
  case True
  then show ?thesis using assms(1) by (simp add: Resize_def)
next
  case False
  define new_size where "new_size = (if increase then m_size m * 2 else m_size m div 2)"
  have sd: "m_size m sdiv 2 = m_size m div 2"
    using assms(1) by (simp add: mapWf_def signed_divide_int_def sgn_if)
  have npos: "0 < new_size" using assms unfolding new_size_def mapWf_def by auto
  let ?m0 = "\<lparr>entries = replicate (nat new_size) AVLTree_init, m_size = new_size, m_count = 0\<rparr>"
  have "sum_list (replicate n (0::int)) = 0" for n by (induction n) simp_all
  then have wf0: "mapWf ?m0"
    using npos treeInv_init by (simp add: mapWf_def AVLTree_init_def treeInv_def)
  have p0: "mapPairs ?m0 = {}" by (simp add: mapPairs_def AVLTree_init_def)
  let ?g = "\<lambda>k. nat (hashFunction m k)"
  have a2: "\<forall>t \<in> set (entries m). treeInv t"
    using assms(1) unfolding mapWf_def by (auto simp: in_set_conv_nth)
  have a3: "\<forall>i < length (entries m). \<forall>x \<in> set (inorder (rootT (entries m ! i))).
              ?g (fst x) = 0 + i"
    using assms(1) unfolding mapWf_def by auto
  have a4: "\<forall>x \<in> mapPairs ?m0. ?g (fst x) < 0" unfolding p0 by simp
  from rehash_ok[OF wf0 a2 a3 a4] obtain m' where m': "rehash (entries m) ?m0 = Some (Inr (), m')"
    "mapWf m'" "mapPairs m' = mapPairs ?m0 \<union> (\<Union>t \<in> set (entries m). set (inorder (rootT t)))"
    "m_size m' = m_size ?m0" "m_count m' = m_count ?m0 + sum_list (map sizeT (entries m))"
    by blast
  have len: "length (entries m) = nat (m_size m)" using assms(1) by (simp add: mapWf_def)
  have "Resize increase m = rehash (entries m) ?m0"
    using False len sd unfolding Resize_def new_size_def by (auto simp add: Let_def)
  moreover have "m_count m' = m_count m" using m'(5) assms(1) by (simp add: mapWf_def)
  moreover have "mapPairs m' = mapPairs m" unfolding m'(3) p0 by (simp add: mapPairs_def)
  ultimately show ?thesis using m'(1,2,4) False unfolding new_size_def by auto
qed

subsection \<open>The public operations of the map\<close>

lemma lf_ge: "0 < s \<Longrightarrow> (0.75 \<le> real_of_int c / real_of_int s) = (3 * s \<le> 4 * c)"
proof -
  assume s: "0 < s"
  have "(0.75 \<le> real_of_int c / real_of_int s) = (3 * real_of_int s \<le> 4 * real_of_int c)"
    using s by (simp add: field_simps)
  also have "\<dots> = (real_of_int (3 * s) \<le> real_of_int (4 * c))" by simp
  also have "\<dots> = (3 * s \<le> 4 * c)" by (rule of_int_le_iff)
  finally show ?thesis .
qed

lemma lf_le: "0 < s \<Longrightarrow> (real_of_int c / real_of_int s \<le> 0.25) = (4 * c \<le> s)"
proof -
  assume s: "0 < s"
  have "(real_of_int c / real_of_int s \<le> 0.25) = (4 * real_of_int c \<le> real_of_int s)"
    using s by (simp add: field_simps)
  also have "\<dots> = (real_of_int (4 * c) \<le> real_of_int s)" by simp
  also have "\<dots> = (4 * c \<le> s)" by (rule of_int_le_iff)
  finally show ?thesis .
qed

lemma lf_gt: "0 < s \<Longrightarrow> (0.25 < real_of_int c / real_of_int s) = (s < 4 * c)"
  using lf_le[of s c] by auto

lemma lf_lt: "0 < s \<Longrightarrow> (real_of_int c / real_of_int s < 0.75) = (4 * c < 3 * s)"
  using lf_ge[of s c] by auto

lemma loadFactorCheckAndResize_ok:
  assumes "mapWf m" "2 \<le> m_size m"
  shows "\<exists>m'. loadFactorCheckAndResize m = Some (Inr (), m') \<and> mapWf m' \<and> mapPairs m' = mapPairs m
           \<and> m_count m' = m_count m
           \<and> m_size m' = (if 3 * m_size m \<le> 4 * m_count m then m_size m * 2
                           else if 4 * m_count m \<le> m_size m \<and> m_size m \<noteq> INITIAL_SIZE
                           then m_size m div 2 else m_size m)"
proof -
  have s: "0 < m_size m" using assms(2) by simp
  show ?thesis
  proof (cases "3 * m_size m \<le> 4 * m_count m")
    case True
    then show ?thesis using Resize_ok[OF assms(1), of True] lf_ge[OF s, of "m_count m"]
      by (auto simp: loadFactorCheckAndResize_def Let_def)
  next
    case F: False
    show ?thesis
    proof (cases "4 * m_count m \<le> m_size m")
      case True
      then show ?thesis
        using Resize_ok[OF assms(1), of False] assms(2) F lf_ge[OF s, of "m_count m"]
          lf_le[OF s, of "m_count m"]
        by (auto simp: loadFactorCheckAndResize_def Let_def)
    next
      case False
      then show ?thesis using assms(1) F lf_ge[OF s, of "m_count m"] lf_le[OF s, of "m_count m"]
        by (auto simp: loadFactorCheckAndResize_def Let_def)
    qed
  qed
qed


lemma capacity_cases:
  assumes "s = 10 * 2 ^ n"
  shows "(s::int) = 10 \<or> (20 \<le> s \<and> (\<exists>n'. s div 2 = 10 * 2 ^ n'))"
proof (cases n)
  case 0
  then show ?thesis using assms by simp
next
  case (Suc n')
  then have "s = 20 * 2 ^ n'" using assms by simp
  moreover have "(1::int) \<le> 2 ^ n'" by simp
  ultimately have "20 \<le> s" "s div 2 = 10 * 2 ^ n'" by auto
  then show ?thesis by blast
qed

lemma loadInv_step:
  assumes "loadInv m" "m_size m1 = m_size m" "m_count m1 = m_count m + 1 \<or> m_count m1 = m_count m - 1"
    "m_count m' = m_count m1"
    "m_size m' = (if 3 * m_size m1 \<le> 4 * m_count m1 then m_size m1 * 2
                  else if 4 * m_count m1 \<le> m_size m1 \<and> m_size m1 \<noteq> INITIAL_SIZE
                  then m_size m1 div 2 else m_size m1)"
  shows "loadInv m'"
    and "m_size m' \<noteq> m_size m1 \<longrightarrow> m_size m' < 4 * m_count m' \<and> 4 * m_count m' < 3 * m_size m'"
    and "10 \<le> m_size m'"
proof -
  obtain n where n: "m_size m = 10 * 2 ^ n" using assms(1) unfolding loadInv_def by blast
  have l: "4 * m_count m < 3 * m_size m" "10 < m_size m \<longrightarrow> m_size m < 4 * m_count m"
    using assms(1) unfolding loadInv_def by simp_all
  have dbl: "m_size m * 2 = 10 * 2 ^ Suc n" using n by simp
  have sz: "m_size m = 10 \<or> 20 \<le> m_size m" using capacity_cases[OF n] by blast
  have pw: "\<exists>k. m_size m' = 10 * 2 ^ k"
  proof -
    from capacity_cases[OF n] consider "m_size m = 10"
      | n' where "20 \<le> m_size m" "m_size m div 2 = 10 * 2 ^ n'" by blast
    then show ?thesis
    proof cases
      case 1
      then show ?thesis using assms(2,5) n dbl
        by (auto simp: INITIAL_SIZE_def intro: exI[of _ "Suc n"] exI[of _ n])
    next
      case 2
      then show ?thesis using assms(2,5) n dbl
        by (auto simp: INITIAL_SIZE_def intro: exI[of _ "Suc n"] exI[of _ n] exI[of _ n'])
    qed
  qed
  have lin: "4 * m_count m' < 3 * m_size m' \<and> (10 < m_size m' \<longrightarrow> m_size m' < 4 * m_count m')
      \<and> (m_size m' \<noteq> m_size m1 \<longrightarrow>
            m_size m' < 4 * m_count m' \<and> 4 * m_count m' < 3 * m_size m')
      \<and> 10 \<le> m_size m'"
    using assms(2-5) l sz unfolding INITIAL_SIZE_def by (auto split: if_splits)
  have "loadInv m' \<and> (m_size m' \<noteq> m_size m1 \<longrightarrow>
        m_size m' < 4 * m_count m' \<and> 4 * m_count m' < 3 * m_size m') \<and> 10 \<le> m_size m'"
    using pw lin unfolding loadInv_def by blast
  then show "loadInv m'"
    and "m_size m' \<noteq> m_size m1 \<longrightarrow> m_size m' < 4 * m_count m' \<and> 4 * m_count m' < 3 * m_size m'"
    and "10 \<le> m_size m'" by blast+
qed

lemma loadInv_size: "loadInv m \<Longrightarrow> 10 \<le> m_size m"
  using capacity_cases unfolding loadInv_def by fastforce


lemma HashMap_Insert_present:
  assumes "mapWf m" "key \<in> fst ` mapPairs m"
  shows "HashMap_Insert key obj (m, h) = Some (Inl HashMapKeyAlreadyExistsException, (m, h))"
  using Contains_iff[OF assms(1), of key] assms(2) by (simp add: HashMap_Insert_def)

lemma HashMap_Insert_absent:
  assumes "mapWf m" "loadInv m" "heapOk m h" "key \<notin> fst ` mapPairs m"
  shows "\<exists>m'. HashMap_Insert key obj (m, h) = Some (Inr (length h), m', h @ [Some obj])
     \<and> mapWf m' \<and> loadInv m' \<and> heapOk m' (h @ [Some obj])
     \<and> mapPairs m' = insert (key, length h) (mapPairs m)
     \<and> m_count m' = m_count m + 1
     \<and> m_size m' = sizeAfter (m_size m) (m_count m + 1)
     \<and> (m_size m' \<noteq> m_size m \<longrightarrow> m_size m' < 4 * m_count m' \<and> 4 * m_count m' < 3 * m_size m')"
proof -
  let ?i = "nat (hashFunction m key)"
  from bucket_insert[OF assms(1,4), of "length h"] obtain t' where
    t': "Insert key (length h) (entries m ! ?i) = Some (Inr (), t')"
    and wf: "mapWf (m\<lparr>entries := (entries m)[?i := t'], m_count := m_count m + 1\<rparr>)"
    and pairs: "mapPairs (m\<lparr>entries := (entries m)[?i := t'], m_count := m_count m + 1\<rparr>)
                = insert (key, length h) (mapPairs m)"
    by blast
  let ?m1 = "m\<lparr>entries := (entries m)[?i := t'], m_count := m_count m + 1\<rparr>"
  have s2: "2 \<le> m_size ?m1" using loadInv_size[OF assms(2)] by simp
  from loadFactorCheckAndResize_ok[OF wf s2] obtain m' where
    m': "loadFactorCheckAndResize ?m1 = Some (Inr (), m')" "mapWf m'" "mapPairs m' = mapPairs ?m1"
    "m_count m' = m_count ?m1"
    "m_size m' = (if 3 * m_size ?m1 \<le> 4 * m_count ?m1 then m_size ?m1 * 2
                  else if 4 * m_count ?m1 \<le> m_size ?m1 \<and> m_size ?m1 \<noteq> INITIAL_SIZE
                  then m_size ?m1 div 2 else m_size ?m1)" by blast
  have run: "HashMap_Insert key obj (m, h) = Some (Inr (length h), m', h @ [Some obj])"
    using Contains_iff[OF assms(1), of key] assms(4) entryAt_hash[OF assms(1), of key] t' m'(1)
    by (simp add: HashMap_Insert_def new_def)
  note li = loadInv_step[OF assms(2) _ _ m'(4,5)]
  have l1: "loadInv m'" by (rule li(1)) simp_all
  have l2: "m_size m' \<noteq> m_size ?m1 \<longrightarrow> m_size m' < 4 * m_count m' \<and> 4 * m_count m' < 3 * m_size m'"
    by (rule li(2)) simp_all
  have hp: "heapOk m' (h @ [Some obj])"
    using assms(3) unfolding heapOk_def m'(3) pairs
    by (auto simp: nth_append inj_on_def)
  show ?thesis using run m'(2,4,5) l1 l2 hp m'(3) pairs by (simp add: sizeAfter_def)
qed

lemma bucket_lookup:
  assumes "mapWf m" "(key, p) \<in> mapPairs m"
  shows "\<exists>it. Find key (entries m ! nat (hashFunction m key)) = Inr it
        \<and> deref (entries m ! nat (hashFunction m key)) (Some it) = Inr p"
proof -
  let ?t = "entries m ! nat (hashFunction m key)"
  have i: "nat (hashFunction m key) < length (entries m)" using hash_index[OF assms(1)] .
  have ti: "treeInv ?t" using assms(1) i unfolding mapWf_def by blast
  obtain t where t: "t \<in> set (entries m)" "(key, p) \<in> set (inorder (rootT t))"
    using assms(2) by (auto simp: mapPairs_def)
  then obtain j where j: "j < length (entries m)" "entries m ! j = t"
    by (auto simp: in_set_conv_nth)
  then have "hashFunction m key = int j" using assms(1) t(2) unfolding mapWf_def by force
  then have kp: "(key, p) \<in> set (inorder (rootT ?t))" using j t(2) by simp
  then have "key \<in> fst ` set (inorder (rootT ?t))" by force
  then obtain it where it: "recursiveFind (rootT ?t) key = Some it"
    using recursiveFind_None[of "rootT ?t" key] ti unfolding treeInv_def by auto
  have f: "getKey (nodeAt (rootT ?t) it) = key"
    "(getKey (nodeAt (rootT ?t) it), getData (nodeAt (rootT ?t) it)) \<in> set (inorder (rootT ?t))"
    using recursiveFind_Some[OF it] by blast+
  have "distinct (map fst (inorder (rootT ?t)))" using treeInv_extract(3)[OF ti] .
  then have "getData (nodeAt (rootT ?t) it) = p"
    using kp f by (metis eq_key_imp_eq_value)
  then show ?thesis using it by (simp add: Find_def deref_def)
qed



lemma HashMap_Delete_absent:
  assumes "mapWf m" "kr h = Some key" "key \<notin> fst ` mapPairs m"
  shows "HashMap_Delete kr (m, h) = Some (Inl HashMapKeyNotFoundException, (m, h))"
  using Contains_iff[OF assms(1), of key] assms(2,3) by (simp add: HashMap_Delete_def)

lemma HashMap_Delete_present:
  assumes "mapWf m" "loadInv m" "heapOk m h" "(key, p) \<in> mapPairs m"
    and "kr h = Some key" "kr (h[p := None]) = Some key"
  shows "\<exists>m'. HashMap_Delete kr (m, h) = Some (Inr (), m', h[p := None])
     \<and> mapWf m' \<and> loadInv m' \<and> heapOk m' (h[p := None])
     \<and> mapPairs m' = {x \<in> mapPairs m. fst x \<noteq> key}
     \<and> m_count m' = m_count m - 1
     \<and> m_size m' = sizeAfter (m_size m) (m_count m - 1)
     \<and> (m_size m' \<noteq> m_size m \<longrightarrow> m_size m' < 4 * m_count m' \<and> 4 * m_count m' < 3 * m_size m')"
proof -
  let ?i = "nat (hashFunction m key)"
  have kin: "key \<in> fst ` mapPairs m" using assms(4) by force
  from bucket_delete[OF assms(1) kin] obtain t' where
    t': "Delete (byValue key) (entries m ! ?i) = Some (Inr (), t')"
    and wf: "mapWf (m\<lparr>entries := (entries m)[?i := t'], m_count := m_count m - 1\<rparr>)"
    and pairs: "mapPairs (m\<lparr>entries := (entries m)[?i := t'], m_count := m_count m - 1\<rparr>)
                = {x \<in> mapPairs m. fst x \<noteq> key}"
    by blast
  let ?m1 = "m\<lparr>entries := (entries m)[?i := t'], m_count := m_count m - 1\<rparr>"
  have s2: "2 \<le> m_size ?m1" using loadInv_size[OF assms(2)] by simp
  from loadFactorCheckAndResize_ok[OF wf s2] obtain m' where
    m': "loadFactorCheckAndResize ?m1 = Some (Inr (), m')" "mapWf m'" "mapPairs m' = mapPairs ?m1"
    "m_count m' = m_count ?m1"
    "m_size m' = (if 3 * m_size ?m1 \<le> 4 * m_count ?m1 then m_size ?m1 * 2
                  else if 4 * m_count ?m1 \<le> m_size ?m1 \<and> m_size ?m1 \<noteq> INITIAL_SIZE
                  then m_size ?m1 div 2 else m_size ?m1)" by blast
  from bucket_lookup[OF assms(1,4)] obtain it where
    it: "Find key (entries m ! ?i) = Inr it" "deref (entries m ! ?i) (Some it) = Inr p" by blast
  have pv: "p < length h" "h ! p \<noteq> None" using assms(3,4) unfolding heapOk_def by force+
  have run: "HashMap_Delete kr (m, h) = Some (Inr (), m', h[p := None])"
    using Contains_iff[OF assms(1), of key] kin entryAt_hash[OF assms(1), of key] t' m'(1) it pv
      assms(5,6)
    by (simp add: HashMap_Delete_def delete_def)
  note li = loadInv_step[OF assms(2) _ _ m'(4,5)]
  have l1: "loadInv m'" by (rule li(1)) simp_all
  have l2: "m_size m' \<noteq> m_size ?m1 \<longrightarrow> m_size m' < 4 * m_count m' \<and> 4 * m_count m' < 3 * m_size m'"
    by (rule li(2)) simp_all
  have other: "snd x \<noteq> p" if "x \<in> mapPairs m" "fst x \<noteq> key" for x
  proof
    assume "snd x = p"
    then have "snd x = snd (key, p)" by simp
    then have "x = (key, p)" using assms(3,4) that(1) unfolding heapOk_def inj_on_def by blast
    then show False using that(2) by simp
  qed
  have "h[p := None] ! snd x = h ! snd x" if "x \<in> mapPairs m" "fst x \<noteq> key" for x
    using other[OF that] by simp
  then have hp: "heapOk m' (h[p := None])"
    using assms(3) unfolding heapOk_def m'(3) pairs
    by (auto simp: inj_on_def)
  show ?thesis using run m'(2,4,5) l1 l2 hp m'(3) pairs by (simp add: sizeAfter_def)
qed


lemma stateInv_init: "stateInv (HashMap_init, h0)"
proof -
  have "sum_list (replicate n (0::int)) = 0" for n by (induction n) simp_all
  then have "mapWf HashMap_init"
    by (simp add: mapWf_def HashMap_init_def INITIAL_SIZE_def AVLTree_init_def treeInv_def)
  moreover have "loadInv HashMap_init"
    unfolding loadInv_def by (rule conjI, rule exI[of _ 0]) (simp_all add: HashMap_init_def INITIAL_SIZE_def)
  moreover have "mapPairs HashMap_init = {}"
    by (simp add: mapPairs_def HashMap_init_def AVLTree_init_def)
  ultimately show ?thesis by (simp add: stateInv_def heapOk_def)
qed

lemma applyMapOp_inv:
  assumes "stateInv s"
  shows "\<exists>s'. applyMapOp x s = Some s' \<and> stateInv s'"
proof -
  obtain m h where s: "s = (m, h)" by (cases s)
  have inv: "mapWf m" "loadInv m" "heapOk m h" using assms s by (simp_all add: stateInv_def)
  show ?thesis
  proof (cases x)
    case (MapInsert key obj)
    show ?thesis
    proof (cases "key \<in> fst ` mapPairs m")
      case True
      then show ?thesis using HashMap_Insert_present[OF inv(1) True, of obj h] assms s MapInsert
        by simp
    next
      case False
      from HashMap_Insert_absent[OF inv False, of obj] show ?thesis
        using s MapInsert by (auto simp: stateInv_def)
    qed
  next
    case (MapDelete key)
    show ?thesis
    proof (cases "key \<in> fst ` mapPairs m")
      case True
      then obtain p where "(key, p) \<in> mapPairs m" by auto
      from HashMap_Delete_present[OF inv this, where kr = "keyByValue key"] show ?thesis
        using s MapDelete by (auto simp: stateInv_def keyByValue_def)
    next
      case False
      then show ?thesis
        using HashMap_Delete_absent[where kr = "keyByValue key" and h = h, OF inv(1) _ False]
          assms s MapDelete
        by (simp add: keyByValue_def)
    qed
  qed
qed

lemma applyMapOps_inv:
  "stateInv s \<Longrightarrow> \<exists>s'. applyMapOps xs s = Some s' \<and> stateInv s'"
proof (induction xs arbitrary: s)
  case Nil
  then show ?case by simp
next
  case (Cons x xs)
  from applyMapOp_inv[OF Cons.prems, of x] obtain s1 where "applyMapOp x s = Some s1" "stateInv s1"
    by blast
  then show ?case using Cons.IH[of s1] by simp
qed


subsection \<open>Load factor, resizing and ownership of payloads\<close>

lemma sizeAfter_real:
  "0 < s \<Longrightarrow> sizeAfter s c =
     (if 0.75 \<le> real_of_int c / real_of_int s then s * 2
      else if real_of_int c / real_of_int s \<le> 0.25 \<and> s \<noteq> INITIAL_SIZE then s div 2 else s)"
  unfolding sizeAfter_def by (simp only: lf_ge lf_le)

lemma loadFactor_between:
  "0 < m_size m \<Longrightarrow>
     (0.25 < loadFactor m \<and> loadFactor m < 0.75) =
     (m_size m < 4 * m_count m \<and> 4 * m_count m < 3 * m_size m)"
  unfolding loadFactor_def by (simp only: lf_gt lf_lt)

text \<open>
  With the key passed by value: after any sequence of operations on a new map the
  capacity is at least 10. From such a state, an \<open>Insert\<close> of an absent key and a
  \<open>Delete\<close> of a present key succeed, change the count by one, and leave the
  capacity doubled exactly when the new \<open>count / capacity\<close> is at least 0.75,
  halved exactly when it is at most 0.25 and the capacity is not the initial 10, and
  unchanged otherwise; the capacity stays at least 10, and whenever it has changed the
  load factor afterwards lies strictly between 0.25 and 0.75. By
  \<open>HashMap_Delete_present\<close> the same holds for a \<open>Delete\<close> through any key
  reference that reads the same key before and after the payload is freed.
\<close>

lemma resize_thresholds:
  "\<exists>m h. applyMapOps ops (HashMap_init, h0) = Some (m, h) \<and> INITIAL_SIZE \<le> m_size m
     \<and> (key \<notin> fst ` mapPairs m \<longrightarrow>
          (\<exists>p m' h'. HashMap_Insert key obj (m, h) = Some (Inr p, m', h')
             \<and> m_count m' = m_count m + 1
             \<and> m_size m' =
                 (if 0.75 \<le> real_of_int (m_count m + 1) / real_of_int (m_size m)
                  then m_size m * 2
                  else if real_of_int (m_count m + 1) / real_of_int (m_size m) \<le> 0.25
                          \<and> m_size m \<noteq> INITIAL_SIZE
                  then m_size m div 2 else m_size m)
             \<and> INITIAL_SIZE \<le> m_size m'
             \<and> (m_size m' \<noteq> m_size m \<longrightarrow> 0.25 < loadFactor m' \<and> loadFactor m' < 0.75)))
     \<and> (key \<in> fst ` mapPairs m \<longrightarrow>
          (\<exists>m' h'. HashMap_Delete (keyByValue key) (m, h) = Some (Inr (), m', h')
             \<and> m_count m' = m_count m - 1
             \<and> m_size m' =
                 (if 0.75 \<le> real_of_int (m_count m - 1) / real_of_int (m_size m)
                  then m_size m * 2
                  else if real_of_int (m_count m - 1) / real_of_int (m_size m) \<le> 0.25
                          \<and> m_size m \<noteq> INITIAL_SIZE
                  then m_size m div 2 else m_size m)
             \<and> INITIAL_SIZE \<le> m_size m'
             \<and> (m_size m' \<noteq> m_size m \<longrightarrow> 0.25 < loadFactor m' \<and> loadFactor m' < 0.75)))"
proof -
  from applyMapOps_inv[OF stateInv_init, of ops h0] obtain s where
    s: "applyMapOps ops (HashMap_init, h0) = Some s" "stateInv s" by blast
  obtain m h where mh: "s = (m, h)" by (cases s)
  have run: "applyMapOps ops (HashMap_init, h0) = Some (m, h)" and inv: "stateInv (m, h)"
    using s mh by simp_all
  have i: "mapWf m" "loadInv m" "heapOk m h" using inv by (simp_all add: stateInv_def)
  have sz: "10 \<le> m_size m" using loadInv_size[OF i(2)] .
  then have pos: "0 < m_size m" by simp
  have ins: "\<exists>p m' h'. HashMap_Insert key obj (m, h) = Some (Inr p, m', h')
             \<and> m_count m' = m_count m + 1
             \<and> m_size m' = sizeAfter (m_size m) (m_count m + 1)
             \<and> INITIAL_SIZE \<le> m_size m'
             \<and> (m_size m' \<noteq> m_size m \<longrightarrow> 0.25 < loadFactor m' \<and> loadFactor m' < 0.75)"
    if "key \<notin> fst ` mapPairs m"
  proof -
    from HashMap_Insert_absent[OF i that, of obj] obtain m' where
      m': "HashMap_Insert key obj (m, h) = Some (Inr (length h), m', h @ [Some obj])"
      "loadInv m'" "m_count m' = m_count m + 1" "m_size m' = sizeAfter (m_size m) (m_count m + 1)"
      "m_size m' \<noteq> m_size m \<longrightarrow> m_size m' < 4 * m_count m' \<and> 4 * m_count m' < 3 * m_size m'"
      by blast
    have "10 \<le> m_size m'" using loadInv_size[OF m'(2)] .
    then show ?thesis using m'(1,3,4,5) loadFactor_between[of m']
      by (auto simp: INITIAL_SIZE_def)
  qed
  have del: "\<exists>m' h'. HashMap_Delete (keyByValue key) (m, h) = Some (Inr (), m', h')
             \<and> m_count m' = m_count m - 1
             \<and> m_size m' = sizeAfter (m_size m) (m_count m - 1)
             \<and> INITIAL_SIZE \<le> m_size m'
             \<and> (m_size m' \<noteq> m_size m \<longrightarrow> 0.25 < loadFactor m' \<and> loadFactor m' < 0.75)"
    if "key \<in> fst ` mapPairs m"
  proof -
    from that obtain p where "(key, p) \<in> mapPairs m" by auto
    from HashMap_Delete_present[OF i this, where kr = "keyByValue key"] obtain m' where
      m': "HashMap_Delete (keyByValue key) (m, h) = Some (Inr (), m', h[p := None])"
      "loadInv m'" "m_count m' = m_count m - 1" "m_size m' = sizeAfter (m_size m) (m_count m - 1)"
      "m_size m' \<noteq> m_size m \<longrightarrow> m_size m' < 4 * m_count m' \<and> 4 * m_count m' < 3 * m_size m'"
      by (auto simp: keyByValue_def)
    have "10 \<le> m_size m'" using loadInv_size[OF m'(2)] .
    then show ?thesis using m'(1,3,4,5) loadFactor_between[of m']
      by (auto simp: INITIAL_SIZE_def)
  qed
  show ?thesis
    using run sz ins del unfolding sizeAfter_real[OF pos] by (auto simp: INITIAL_SIZE_def)
qed








end
